theory Spec2Isabelle
  imports Main
begin

section \<open>Values, errors and Python helpers\<close>

text \<open>
  The tool-call arguments, the prompt and the per-callee state are JSON values
  (\<^verbatim>\<open>json.loads\<close>, \<^verbatim>\<open>state: Any\<close>). \<open>JNull\<close> stands for Python's \<^verbatim>\<open>None\<close>;
  an object is an association list in insertion order. Numbers are kept as integers:
  the code only ever tests a number for being zero.
\<close>

datatype json =
    JNull
  | JBool bool
  | JNum int
  | JStr string
  | JArr "json list"
  | JObj "(string \<times> json) list"

text \<open>Python truthiness, as \<^verbatim>\<open>if x:\<close> and \<^verbatim>\<open>bool(x)\<close> decide it.\<close>

fun truthy :: "json \<Rightarrow> bool" where
  "truthy JNull = False"
| "truthy (JBool b) = b"
| "truthy (JNum n) = (n \<noteq> 0)"
| "truthy (JStr s) = (s \<noteq> [])"
| "truthy (JArr xs) = (xs \<noteq> [])"
| "truthy (JObj kvs) = (kvs \<noteq> [])"

datatype py_error =
    JSONDecodeError
  | KeyError
  | IndexError
  | TypeError
  | AttributeError
  | RuntimeError
  | ValidationError
  | TransportError

text \<open>\<^verbatim>\<open>d.get(key, default)\<close>: only a dict has the method.\<close>

fun dict_get :: "json \<Rightarrow> string \<Rightarrow> json \<Rightarrow> py_error + json" where
  "dict_get (JObj kvs) k dflt = Inr (case map_of kvs k of None \<Rightarrow> dflt | Some v \<Rightarrow> v)"
| "dict_get _ k dflt = Inl AttributeError"

text \<open>\<^verbatim>\<open>d[key]\<close> with a string key: a missing key raises, and so does every value
  that is not a dict.\<close>

fun dict_item :: "json \<Rightarrow> string \<Rightarrow> py_error + json" where
  "dict_item (JObj kvs) k = (case map_of kvs k of None \<Rightarrow> Inl KeyError | Some v \<Rightarrow> Inr v)"
| "dict_item _ k = Inl TypeError"

text \<open>\<^verbatim>\<open>xs[i]\<close> on a list: a negative index counts from the end.\<close>

definition list_item :: "'a list \<Rightarrow> int \<Rightarrow> py_error + 'a" where
  "list_item xs i =
     (if 0 \<le> i \<and> i < int (length xs) then Inr (xs ! nat i)
      else if i < 0 \<and> - int (length xs) \<le> i then Inr (xs ! nat (int (length xs) + i))
      else Inl IndexError)"

text \<open>\<^verbatim>\<open>json.loads\<close> is not modelled as a parser: the argument text of a tool call is
  carried as the value it parses to, \<open>None\<close> when the text is not JSON.\<close>

definition json_loads :: "json option \<Rightarrow> py_error + json" where
  "json_loads txt = (case txt of None \<Rightarrow> Inl JSONDecodeError | Some v \<Rightarrow> Inr v)"

section \<open>Data model\<close>

datatype role = System | User | Assistant | Tool

text \<open>An attachment is opaque to this code; it is carried as its dict, the value that
  \<^verbatim>\<open>.dict(exclude_none=True)\<close> gives and that a stage delta holds. Building an
  attachment from such a dict, \<^verbatim>\<open>Attachment(**d)\<close>, is a step of its own: see
  \<open>attachment_constructor\<close> below.\<close>

type_synonym attachment = json

record custom_content =
  state :: json
  attachments :: "attachment list option"

text \<open>A turn of the transcript, with the fields of the spec's data model.
  \<^verbatim>\<open>.dict(exclude_none=True)\<close> of a turn is the turn itself in this representation: a
  field that is \<open>None\<close> (or \<open>JNull\<close>) is a key left out. A content is a JSON value,
  since the prompt that becomes the content of the new user turn is one.\<close>

record message =
  role :: role
  content :: json
  custom_content :: "custom_content option"
  tool_call_id :: "string option"

text \<open>The progress stage of the response surface (\<^verbatim>\<open>aidial_sdk\<close>'s \<^verbatim>\<open>Stage\<close>), as far
  as this code drives it.\<close>

record stage =
  name :: string
  content :: string
  attachments :: "attachment list"
  closed :: bool

text \<open>\<^verbatim>\<open>tool_call.id\<close> and \<^verbatim>\<open>tool_call.function.arguments\<close>.\<close>

record tool_call =
  call_id :: string
  arguments :: "json option"

text \<open>The shared response surface: the attachments shown at top level. The surface is
  taken to accept what is added to it.\<close>

record choice =
  attachments :: "attachment list"

record tool_call_params =
  tool_call :: tool_call
  stage :: stage
  choice :: choice
  messages :: "message list"
  api_key :: string
  conversation_id :: string

text \<open>\<^verbatim>\<open>self\<close>: the endpoint, and the two abstract properties \<^verbatim>\<open>name\<close> (the key of
  the callee in the state) and \<^verbatim>\<open>deployment_name\<close>.\<close>

record base_agent_tool =
  endpoint :: string
  name :: string
  deployment_name :: string

section \<open>History propagation: \<^verbatim>\<open>_prepare_messages\<close>\<close>

text \<open>One iteration of the scan (lines 156 to 167): the turns it appends.\<close>

definition history_step :: "string \<Rightarrow> message list \<Rightarrow> nat \<Rightarrow> py_error + message list" where
  "history_step self_name msgs idx =
     (case list_item msgs (int idx) of
        Inl e \<Rightarrow> Inl e
      | Inr msg \<Rightarrow>
          if role msg = Assistant then
            (case custom_content msg of
               None \<Rightarrow> Inr []
             | Some cc \<Rightarrow>
                 if truthy (state cc) then
                   (case dict_get (state cc) self_name JNull of
                      Inl e \<Rightarrow> Inl e
                    | Inr sub \<Rightarrow>
                        if truthy sub then
                          (case list_item msgs (int idx - 1) of
                             Inl e \<Rightarrow> Inl e
                           | Inr prev \<Rightarrow>
                               Inr [prev, msg\<lparr>custom_content := Some (cc\<lparr>state := sub\<rparr>)\<rparr>])
                        else Inr [])
                 else Inr [])
          else Inr [])"

text \<open>\<^verbatim>\<open>for idx in range(len(messages))\<close>, appending to \<^verbatim>\<open>messages\<close>; an exception
  leaves the loop.\<close>

fun collect_history ::
  "string \<Rightarrow> message list \<Rightarrow> nat list \<Rightarrow> message list \<Rightarrow> py_error + message list" where
  "collect_history self_name msgs [] out = Inr out"
| "collect_history self_name msgs (idx # idxs) out =
     (case history_step self_name msgs idx of
        Inl e \<Rightarrow> Inl e
      | Inr new \<Rightarrow> collect_history self_name msgs idxs (out @ new))"

definition prepare_messages :: "base_agent_tool \<Rightarrow> tool_call_params \<Rightarrow> py_error + message list" where
  "prepare_messages self p =
     (case json_loads (arguments (tool_call p)) of
        Inl e \<Rightarrow> Inl e
      | Inr args \<Rightarrow>
     (case dict_item args ''prompt'' of
        Inl e \<Rightarrow> Inl e
      | Inr prompt \<Rightarrow>
     (case dict_get args ''propagate_history'' (JBool False) of
        Inl e \<Rightarrow> Inl e
      | Inr propagate_history \<Rightarrow>
     (case (if truthy propagate_history
            then collect_history (base_agent_tool.name self) (messages p)
                   [0..<length (messages p)] []
            else Inr []) of
        Inl e \<Rightarrow> Inl e
      | Inr msgs \<Rightarrow>
     (case list_item (messages p) (- 1) of
        Inl e \<Rightarrow> Inl e
      | Inr last_msg \<Rightarrow>
          Inr (msgs @ [\<lparr>role = User, content = prompt,
                        custom_content = custom_content last_msg,
                        tool_call_id = None\<rparr>]))))))"

section \<open>The response stream\<close>

text \<open>Optional strings and lists of a chunk are tested by truthiness
  (\<^verbatim>\<open>if x := d.get(k)\<close>): \<open>None\<close> and the empty value both fail the test.\<close>

definition some_nonempty :: "'a list option \<Rightarrow> bool" where
  "some_nonempty x = (case x of None \<Rightarrow> False | Some xs \<Rightarrow> xs \<noteq> [])"

definition or_empty :: "'a list option \<Rightarrow> 'a list" where
  "or_empty x = (case x of None \<Rightarrow> [] | Some xs \<Rightarrow> xs)"

record stage_delta =
  index :: int
  name :: "string option"
  content :: "string option"
  attachments :: "attachment list option"
  status :: "string option"

record delta_custom_content =
  attachments :: "attachment list option"
  state :: json
  stages :: "stage_delta list option"

record delta =
  content :: "string option"
  custom_content :: "delta_custom_content option"

record chunk_choice =
  delta :: "delta option"

record chunk =
  choices :: "chunk_choice list option"

text \<open>What the asynchronous iterator gives at each step: a chunk, or an exception
  raised by the transport.\<close>

type_synonym chunk_stream = "(py_error + chunk) list"

section \<open>Stage handles\<close>

text \<open>The methods of the stage handle (\<^verbatim>\<open>aidial_sdk\<close>'s \<^verbatim>\<open>Stage\<close>) and the two helpers of
  \<^verbatim>\<open>StageProcessor\<close> (\<^verbatim>\<open>task/utils/stage.py\<close>) are called by the code but are not in the
  sources.\<close>

text \<open>Modelled from the spec: \<^verbatim>\<open>Stage.append_name\<close> is not in the sources. An open stage
  "accumulates a name suffix"; once closed it "must not accept further mutation", so the
  call on a closed stage is refused with an error.\<close>

definition append_name :: "stage \<Rightarrow> string \<Rightarrow> py_error + stage" where
  "append_name stg s =
     (if closed stg then Inl RuntimeError else Inr (stg\<lparr>stage.name := stage.name stg @ s\<rparr>))"

text \<open>Modelled from the spec: \<^verbatim>\<open>Stage.append_content\<close> is not in the sources. Content
  is append-only ("once content exists it is never replaced, only appended to"), and a
  closed stage refuses it.\<close>

definition append_content :: "stage \<Rightarrow> string \<Rightarrow> py_error + stage" where
  "append_content stg s =
     (if closed stg then Inl RuntimeError
      else Inr (stg\<lparr>stage.content := stage.content stg @ s\<rparr>))"

text \<open>Modelled from the spec: \<^verbatim>\<open>Stage.add_attachment\<close> is not in the sources. An open
  stage accumulates attachments in order, and a closed stage refuses them.\<close>

definition add_attachment :: "stage \<Rightarrow> attachment \<Rightarrow> py_error + stage" where
  "add_attachment stg a =
     (if closed stg then Inl RuntimeError
      else Inr (stg\<lparr>stage.attachments := stage.attachments stg @ [a]\<rparr>))"

text \<open>Modelled from the spec: \<^verbatim>\<open>StageProcessor.open_stage\<close> (\<^verbatim>\<open>task/utils/stage.py\<close>) is
  not in the sources. It opens a new stage on the response surface "using the name
  fragment", or "with an empty name" when the delta has none.\<close>

definition open_stage :: "string option \<Rightarrow> stage" where
  "open_stage nm =
     \<lparr>stage.name = or_empty nm, content = [], attachments = [], closed = False\<rparr>"

text \<open>Modelled from the spec: \<^verbatim>\<open>StageProcessor.close_stage_safely\<close> (\<^verbatim>\<open>task/utils/stage.py\<close>)
  is not in the sources. It closes the stage; "closing an already-closed stage must be a
  no-op, never an error".\<close>

definition close_stage_safely :: "stage \<Rightarrow> stage" where
  "close_stage_safely stg = (if closed stg then stg else stg\<lparr>closed := True\<rparr>)"

section \<open>Stream reconstruction: the loop of \<^verbatim>\<open>_execute\<close>\<close>

text \<open>The constructor \<^verbatim>\<open>Attachment(**d)\<close> of \<^verbatim>\<open>aidial_sdk\<close> is not in the sources: it is
  a parameter, \<open>new_attachment\<close>, of everything that calls it. From the dict of an
  attachment it gives the validated attachment (again as a dict, which may differ from
  the one passed in), or it raises.\<close>

type_synonym attachment_constructor = "json \<Rightarrow> py_error + attachment"

text \<open>\<^verbatim>\<open>for stg_attachment in stg_attachments:
    opened_stg.add_attachment(Attachment(**stg_attachment))\<close> (lines 106 and 107): the
  argument is built before the stage is asked to take it.\<close>

fun add_attachments ::
  "attachment_constructor \<Rightarrow> stage \<Rightarrow> json list \<Rightarrow> py_error + stage" where
  "add_attachments new_attachment stg [] = Inr stg"
| "add_attachments new_attachment stg (stg_attachment # rest) =
     (case new_attachment stg_attachment of
        Inl e \<Rightarrow> Inl e
      | Inr a \<Rightarrow>
          (case add_attachment stg a of
             Inl e \<Rightarrow> Inl e
           | Inr stg' \<Rightarrow> add_attachments new_attachment stg' rest))"

text \<open>The body of \<^verbatim>\<open>for stg in stages\<close> (lines 99 to 111). The map holds the stage
  handles; a handle mutated in place is the map updated at its index.\<close>

definition apply_stage_delta ::
  "attachment_constructor \<Rightarrow> (int \<rightharpoonup> stage) \<Rightarrow> stage_delta \<Rightarrow>
   py_error + (int \<rightharpoonup> stage)" where
  "apply_stage_delta new_attachment stages_map stg =
     (let idx = index stg in
      case stages_map idx of
        Some opened_stg \<Rightarrow>
          if some_nonempty (stage_delta.name stg) then
            (case append_name opened_stg (or_empty (stage_delta.name stg)) of
               Inl e \<Rightarrow> Inl e
             | Inr s \<Rightarrow> Inr (stages_map(idx \<mapsto> s)))
          else if some_nonempty (stage_delta.content stg) then
            (case append_content opened_stg (or_empty (stage_delta.content stg)) of
               Inl e \<Rightarrow> Inl e
             | Inr s \<Rightarrow> Inr (stages_map(idx \<mapsto> s)))
          else if some_nonempty (stage_delta.attachments stg) then
            (case add_attachments new_attachment opened_stg
                    (or_empty (stage_delta.attachments stg)) of
               Inl e \<Rightarrow> Inl e
             | Inr s \<Rightarrow> Inr (stages_map(idx \<mapsto> s)))
          else if status stg = Some ''completed'' then
            Inr (stages_map(idx \<mapsto> close_stage_safely opened_stg))
          else Inr stages_map
      | None \<Rightarrow> Inr (stages_map(idx \<mapsto> open_stage (stage_delta.name stg))))"

text \<open>\<^verbatim>\<open>for stg in stages\<close> (line 98): the deltas of one chunk, in the order of the
  list.\<close>

fun apply_stage_deltas ::
  "attachment_constructor \<Rightarrow> (int \<rightharpoonup> stage) \<Rightarrow> stage_delta list \<Rightarrow>
   py_error + (int \<rightharpoonup> stage)" where
  "apply_stage_deltas new_attachment stages_map [] = Inr stages_map"
| "apply_stage_deltas new_attachment stages_map (stg # stgs) =
     (case apply_stage_delta new_attachment stages_map stg of
        Inl e \<Rightarrow> Inl e
      | Inr stages_map' \<Rightarrow> apply_stage_deltas new_attachment stages_map' stgs)"

text \<open>The local variables of step 3, with the caller's own stage that mirrors the
  content.\<close>

record reconstruction =
  content :: string
  custom_content :: custom_content
  stages_map :: "int \<rightharpoonup> stage"
  stage :: stage

text \<open>Lines 86 to 88.\<close>

definition mirror_content :: "reconstruction \<Rightarrow> delta option \<Rightarrow> py_error + reconstruction" where
  "mirror_content acc dl =
     (case dl of
        None \<Rightarrow> Inr acc
      | Some d \<Rightarrow>
          if some_nonempty (delta.content d) then
            (case append_content (reconstruction.stage acc) (or_empty (delta.content d)) of
               Inl e \<Rightarrow> Inl e
             | Inr s \<Rightarrow>
                 Inr (acc\<lparr>reconstruction.stage := s,
                          reconstruction.content :=
                            reconstruction.content acc @ or_empty (delta.content d)\<rparr>))
          else Inr acc)"

text \<open>Lines 90 to 111, for a custom content that is present.\<close>

definition collect_custom_content ::
  "attachment_constructor \<Rightarrow> reconstruction \<Rightarrow> delta_custom_content \<Rightarrow>
   py_error + reconstruction" where
  "collect_custom_content new_attachment acc cc =
     (let acc1 =
            (if some_nonempty (delta_custom_content.attachments cc) then
               acc\<lparr>reconstruction.custom_content :=
                     (reconstruction.custom_content acc)
                       \<lparr>custom_content.attachments :=
                          Some (or_empty (custom_content.attachments
                                            (reconstruction.custom_content acc))
                                @ or_empty (delta_custom_content.attachments cc))\<rparr>\<rparr>
             else acc);
          acc2 =
            (if truthy (delta_custom_content.state cc) then
               acc1\<lparr>reconstruction.custom_content :=
                      (reconstruction.custom_content acc1)
                        \<lparr>custom_content.state := delta_custom_content.state cc\<rparr>\<rparr>
             else acc1)
      in if some_nonempty (stages cc) then
           (case apply_stage_deltas new_attachment (stages_map acc2)
                   (or_empty (stages cc)) of
              Inl e \<Rightarrow> Inl e
            | Inr m \<Rightarrow> Inr (acc2\<lparr>stages_map := m\<rparr>))
         else Inr acc2)"

text \<open>The body of \<^verbatim>\<open>async for chunk in chunks\<close> (lines 84 to 111). A first choice
  whose \<^verbatim>\<open>delta\<close> is \<^verbatim>\<open>None\<close> passes the test of line 86 and fails at the attribute
  access of line 89.\<close>

definition consume_chunk ::
  "attachment_constructor \<Rightarrow> reconstruction \<Rightarrow> chunk \<Rightarrow> py_error + reconstruction" where
  "consume_chunk new_attachment acc chnk =
     (case choices chnk of
        None \<Rightarrow> Inr acc
      | Some [] \<Rightarrow> Inr acc
      | Some (c # _) \<Rightarrow>
          (case mirror_content acc (chunk_choice.delta c) of
             Inl e \<Rightarrow> Inl e
           | Inr acc' \<Rightarrow>
               (case chunk_choice.delta c of
                  None \<Rightarrow> Inl AttributeError
                | Some d \<Rightarrow>
                    (case delta.custom_content d of
                       None \<Rightarrow> Inr acc'
                     | Some cc \<Rightarrow> collect_custom_content new_attachment acc' cc))))"

fun consume_chunks ::
  "attachment_constructor \<Rightarrow> reconstruction \<Rightarrow> chunk_stream \<Rightarrow>
   py_error + reconstruction" where
  "consume_chunks new_attachment acc [] = Inr acc"
| "consume_chunks new_attachment acc (Inl e # rest) = Inl e"
| "consume_chunks new_attachment acc (Inr chnk # rest) =
     (case consume_chunk new_attachment acc chnk of
        Inl e \<Rightarrow> Inl e
      | Inr acc' \<Rightarrow> consume_chunks new_attachment acc' rest)"

text \<open>Step 5: \<^verbatim>\<open>for stg in stages_map.values(): StageProcessor.close_stage_safely(stg)\<close>\<close>

definition close_stages :: "(int \<rightharpoonup> stage) \<Rightarrow> (int \<rightharpoonup> stage)" where
  "close_stages handles = (\<lambda>idx. map_option close_stage_safely (handles idx))"

section \<open>The invocation: \<^verbatim>\<open>_execute\<close>\<close>

text \<open>The request sent to the callee, and what \<^verbatim>\<open>_execute\<close> leaves behind: the turn it
  returns, the caller's stage, the response surface and the stage handles.\<close>

record request =
  base_url :: string
  api_key :: string
  messages :: "message list"
  deployment_name :: string
  configuration :: json
  conversation_id :: string

record outcome =
  returned :: message
  stage :: stage
  choice :: choice
  stages_map :: "int \<rightharpoonup> stage"

text \<open>\<^verbatim>\<open>del arguments["prompt"]\<close>\<close>

fun dict_del :: "json \<Rightarrow> string \<Rightarrow> json" where
  "dict_del (JObj kvs) k = JObj (filter (\<lambda>kv. fst kv \<noteq> k) kvs)"
| "dict_del v k = v"

text \<open>Step 3: the empty accumulators, \<^verbatim>\<open>CustomContent(attachments=[])\<close> among them.\<close>

definition start_reconstruction :: "stage \<Rightarrow> reconstruction" where
  "start_reconstruction caller_stage =
     \<lparr>reconstruction.content = [],
      custom_content = \<lparr>custom_content.state = JNull, attachments = Some []\<rparr>,
      stages_map = Map.empty,
      stage = caller_stage\<rparr>"

text \<open>Lines 120 to 123:
  \<^verbatim>\<open>for attachment in custom_content.attachments:
    tool_call_params.choice.add_attachment(Attachment(**attachment.dict(exclude_none=True)))\<close>.
  Each accumulated attachment is built anew by the constructor, which may raise, and
  the result is added to the response surface.\<close>

fun copy_attachments ::
  "attachment_constructor \<Rightarrow> choice \<Rightarrow> attachment list \<Rightarrow> py_error + choice" where
  "copy_attachments new_attachment ch [] = Inr ch"
| "copy_attachments new_attachment ch (a # rest) =
     (case new_attachment a of
        Inl e \<Rightarrow> Inl e
      | Inr a' \<Rightarrow>
          copy_attachments new_attachment
            (ch\<lparr>choice.attachments := choice.attachments ch @ [a']\<rparr>) rest)"

text \<open>Steps 5 and 6: every stage handle is closed, every accumulated attachment is
  added to the response surface, and the tool message is returned with the accumulated
  custom content as it is.\<close>

definition tool_message ::
  "attachment_constructor \<Rightarrow> tool_call_params \<Rightarrow> reconstruction \<Rightarrow> py_error + outcome" where
  "tool_message new_attachment p acc =
     (case copy_attachments new_attachment (tool_call_params.choice p)
             (or_empty (custom_content.attachments (reconstruction.custom_content acc))) of
        Inl e \<Rightarrow> Inl e
      | Inr ch \<Rightarrow>
          Inr \<lparr>returned =
                 \<lparr>role = Tool,
                  content = JStr (reconstruction.content acc),
                  custom_content = Some (reconstruction.custom_content acc),
                  tool_call_id = Some (call_id (tool_call p))\<rparr>,
               stage = reconstruction.stage acc,
               choice = ch,
               stages_map = close_stages (reconstruction.stages_map acc)\<rparr>)"

text \<open>\<^verbatim>\<open>_execute\<close>. Three things outside the code are parameters: the constructor
  \<open>new_attachment\<close>, the text \<open>py_str\<close> that the f-string of line 32 gives for the
  prompt, and \<open>callee\<close>, the answer of the deployment to a request (the chunk stream, or
  the exception of the call).\<close>

definition execute ::
  "base_agent_tool \<Rightarrow> attachment_constructor \<Rightarrow> (json \<Rightarrow> string) \<Rightarrow>
   (request \<Rightarrow> py_error + chunk_stream) \<Rightarrow> tool_call_params \<Rightarrow> py_error + outcome" where
  "execute self new_attachment py_str callee p =
     (case json_loads (arguments (tool_call p)) of
        Inl e \<Rightarrow> Inl e
      | Inr args \<Rightarrow>
     (case dict_get args ''prompt'' JNull of
        Inl e \<Rightarrow> Inl e
      | Inr prompt \<Rightarrow>
     (case (if truthy prompt
            then (case append_name (tool_call_params.stage p) ('': '' @ py_str prompt) of
                    Inl e \<Rightarrow> Inl e
                  | Inr s \<Rightarrow> Inr (s, dict_del args ''prompt''))
            else Inr (tool_call_params.stage p, args)) of
        Inl e \<Rightarrow> Inl e
      | Inr (caller_stage, forwarded) \<Rightarrow>
     (case prepare_messages self p of
        Inl e \<Rightarrow> Inl e
      | Inr msgs \<Rightarrow>
     (case callee \<lparr>base_url = endpoint self,
                   api_key = tool_call_params.api_key p,
                   messages = msgs,
                   deployment_name = base_agent_tool.deployment_name self,
                   configuration = forwarded,
                   conversation_id = tool_call_params.conversation_id p\<rparr> of
        Inl e \<Rightarrow> Inl e
      | Inr chunks \<Rightarrow>
     (case consume_chunks new_attachment (start_reconstruction caller_stage) chunks of
        Inl e \<Rightarrow> Inl e
      | Inr acc \<Rightarrow> tool_message new_attachment p acc))))))"

section \<open>Reference definitions for the properties\<close>

subsection \<open>The thread of one callee\<close>

text \<open>The sub-state that an assistant turn holds for the callee \<open>nm\<close>, when it holds a
  non-empty one.\<close>

definition own_state :: "string \<Rightarrow> message \<Rightarrow> json option" where
  "own_state nm m =
     (if message.role m = Assistant then
        (case message.custom_content m of
           None \<Rightarrow> None
         | Some cc \<Rightarrow>
             (case custom_content.state cc of
                JObj kvs \<Rightarrow>
                  (case map_of kvs nm of
                     None \<Rightarrow> None
                   | Some sub \<Rightarrow> if truthy sub then Some sub else None)
              | _ \<Rightarrow> None))
      else None)"

text \<open>Key presence alone: an assistant turn whose state has an entry keyed by \<open>nm\<close>,
  whatever the value.\<close>

definition keyed_by :: "string \<Rightarrow> message \<Rightarrow> bool" where
  "keyed_by nm m =
     (message.role m = Assistant \<and>
      (case message.custom_content m of
         None \<Rightarrow> False
       | Some cc \<Rightarrow>
           (case custom_content.state cc of
              JObj kvs \<Rightarrow> map_of kvs nm \<noteq> None
            | _ \<Rightarrow> False)))"

text \<open>The copy of a turn whose state is replaced by \<open>sub\<close>.\<close>

definition narrowed :: "json \<Rightarrow> message \<Rightarrow> message" where
  "narrowed sub m =
     m\<lparr>message.custom_content :=
         map_option (\<lambda>cc. cc\<lparr>custom_content.state := sub\<rparr>) (message.custom_content m)\<rparr>"

text \<open>The data model's invariant: a state, when present, is a mapping.\<close>

definition state_is_mapping :: "message \<Rightarrow> bool" where
  "state_is_mapping m =
     (case message.custom_content m of
        None \<Rightarrow> True
      | Some cc \<Rightarrow>
          (case custom_content.state cc of JNull \<Rightarrow> True | JObj kvs \<Rightarrow> True | _ \<Rightarrow> False))"

text \<open>The pairing rule of the spec: in transcript order, for every turn holding the
  callee's sub-state, the preceding turn and then the narrowed copy.\<close>

definition callee_thread :: "string \<Rightarrow> message list \<Rightarrow> message list" where
  "callee_thread nm msgs =
     concat (map (\<lambda>i. case own_state nm (msgs ! i) of
                         None \<Rightarrow> []
                       | Some sub \<Rightarrow> [msgs ! (i - 1), narrowed sub (msgs ! i)])
                 [0..<length msgs])"

text \<open>What one turn of the transcript adds to the thread: nothing, unless it holds a
  non-empty sub-state of the callee.\<close>

definition turn_pair :: "string \<Rightarrow> message list \<Rightarrow> nat \<Rightarrow> message list" where
  "turn_pair nm msgs i =
     (case own_state nm (msgs ! i) of
        None \<Rightarrow> []
      | Some sub \<Rightarrow> [msgs ! (i - 1), narrowed sub (msgs ! i)])"

subsection \<open>What a chunk delivers\<close>

text \<open>The code reads the delta of the first choice only.\<close>

definition first_delta :: "chunk \<Rightarrow> delta option" where
  "first_delta chnk =
     (case choices chnk of
        None \<Rightarrow> None
      | Some [] \<Rightarrow> None
      | Some (c # _) \<Rightarrow> chunk_choice.delta c)"

definition chunk_content :: "chunk \<Rightarrow> string" where
  "chunk_content chnk =
     (case first_delta chnk of None \<Rightarrow> [] | Some d \<Rightarrow> or_empty (delta.content d))"

definition chunk_custom_content :: "chunk \<Rightarrow> delta_custom_content option" where
  "chunk_custom_content chnk =
     (case first_delta chnk of None \<Rightarrow> None | Some d \<Rightarrow> delta.custom_content d)"

definition chunk_attachments :: "chunk \<Rightarrow> attachment list" where
  "chunk_attachments chnk =
     (case chunk_custom_content chnk of
        None \<Rightarrow> []
      | Some cc \<Rightarrow> or_empty (delta_custom_content.attachments cc))"

definition chunk_state :: "chunk \<Rightarrow> json" where
  "chunk_state chnk =
     (case chunk_custom_content chnk of
        None \<Rightarrow> JNull
      | Some cc \<Rightarrow> delta_custom_content.state cc)"

definition chunk_stage_deltas :: "chunk \<Rightarrow> stage_delta list" where
  "chunk_stage_deltas chnk =
     (case chunk_custom_content chnk of None \<Rightarrow> [] | Some cc \<Rightarrow> or_empty (stages cc))"

text \<open>Last write wins: the state of the last chunk that carries a non-empty one.\<close>

definition accumulated_state :: "json \<Rightarrow> chunk list \<Rightarrow> json" where
  "accumulated_state initial chnks =
     (if filter truthy (map chunk_state chnks) = [] then initial
      else last (filter truthy (map chunk_state chnks)))"

subsection \<open>The selected field of a stage delta\<close>

text \<open>The fixed priority order: name, then content, then attachments, then
  completed. A field counts when it is non-empty.\<close>

definition name_part :: "stage_delta \<Rightarrow> string" where
  "name_part d =
     (if some_nonempty (stage_delta.name d) then or_empty (stage_delta.name d) else [])"

definition content_part :: "stage_delta \<Rightarrow> string" where
  "content_part d =
     (if \<not> some_nonempty (stage_delta.name d) \<and> some_nonempty (stage_delta.content d)
      then or_empty (stage_delta.content d) else [])"

definition attachments_part :: "stage_delta \<Rightarrow> attachment list" where
  "attachments_part d =
     (if \<not> some_nonempty (stage_delta.name d) \<and> \<not> some_nonempty (stage_delta.content d)
         \<and> some_nonempty (stage_delta.attachments d)
      then or_empty (stage_delta.attachments d) else [])"

definition appends :: "stage_delta \<Rightarrow> bool" where
  "appends d =
     (some_nonempty (stage_delta.name d) \<or> some_nonempty (stage_delta.content d)
      \<or> some_nonempty (stage_delta.attachments d))"

definition closes :: "stage_delta \<Rightarrow> bool" where
  "closes d = (\<not> appends d \<and> status d = Some ''completed'')"

text \<open>The stage deltas delivered for one index: in arrival order, over all the chunks
  and over the batch of each chunk.\<close>

definition stage_deltas_for :: "int \<Rightarrow> chunk list \<Rightarrow> stage_delta list" where
  "stage_deltas_for i chnks =
     filter (\<lambda>d. index d = i) (concat (map chunk_stage_deltas chnks))"

text \<open>A stage to which the selected fields of the deltas \<open>ds\<close> have been applied in
  order: the name and the content fragments appended, the attachments \<open>atts\<close> built from
  the attachment batches appended, and closed if it was closed or one of the deltas was a
  completion signal.\<close>

definition extended :: "stage \<Rightarrow> stage_delta list \<Rightarrow> attachment list \<Rightarrow> stage" where
  "extended s ds atts =
     \<lparr>stage.name = stage.name s @ concat (map name_part ds),
      content = stage.content s @ concat (map content_part ds),
      attachments = stage.attachments s @ atts,
      closed = (closed s \<or> list_ex closes ds)\<rparr>"

section \<open>Concrete inputs\<close>

definition calc_tool :: base_agent_tool where
  "calc_tool =
     \<lparr>endpoint = ''http://dial'', name = ''calc'', deployment_name = ''calculations''\<rparr>"

definition a_tool :: base_agent_tool where
  "a_tool = \<lparr>endpoint = ''http://dial'', name = ''A'', deployment_name = ''agent-a''\<rparr>"

definition blank_stage :: stage where
  "blank_stage = \<lparr>stage.name = ''agent'', content = [], attachments = [], closed = False\<rparr>"

definition call_with :: "(string \<times> json) list \<Rightarrow> message list \<Rightarrow> tool_call_params" where
  "call_with args msgs =
     \<lparr>tool_call = \<lparr>call_id = ''call_1'', arguments = Some (JObj args)\<rparr>,
      stage = blank_stage,
      choice = \<lparr>choice.attachments = []\<rparr>,
      messages = msgs,
      api_key = ''key'',
      conversation_id = ''conv''\<rparr>"

definition user_hi :: message where
  "user_hi =
     \<lparr>role = User, content = JStr ''hi'', custom_content = None, tool_call_id = None\<rparr>"

definition user_with :: "attachment list \<Rightarrow> message" where
  "user_with atts =
     \<lparr>role = User, content = JStr ''look'',
      custom_content = Some \<lparr>custom_content.state = JNull, attachments = Some atts\<rparr>,
      tool_call_id = None\<rparr>"

definition assistant_with :: "json \<Rightarrow> message" where
  "assistant_with st =
     \<lparr>role = Assistant, content = JStr ''ok'',
      custom_content = Some \<lparr>custom_content.state = st, attachments = None\<rparr>,
      tool_call_id = None\<rparr>"

definition continue_args :: "(string \<times> json) list" where
  "continue_args = [(''prompt'', JStr ''continue''), (''propagate_history'', JBool True)]"

text \<open>A transcript with state for the callees A and B: two assistant turns in a row,
  and a last assistant turn whose entry for A is the empty mapping.\<close>

definition interleaved :: "message list" where
  "interleaved =
     [user_hi,
      assistant_with (JObj [(''B'', JObj [(''y'', JNum 1)])]),
      assistant_with (JObj [(''A'', JObj [(''x'', JNum 1)]), (''B'', JObj [(''y'', JNum 2)])]),
      user_hi,
      assistant_with (JObj [(''A'', JObj [])])]"

text \<open>What the code sends to the callee A for it.\<close>

definition interleaved_out :: "message list" where
  "interleaved_out =
     [assistant_with (JObj [(''B'', JObj [(''y'', JNum 1)])]),
      assistant_with (JObj [(''x'', JNum 1)]),
      \<lparr>role = User, content = JStr ''continue'',
       custom_content =
         Some \<lparr>custom_content.state = JObj [(''A'', JObj [])], attachments = None\<rparr>,
       tool_call_id = None\<rparr>]"

lemmas input_defs = calc_tool_def a_tool_def blank_stage_def call_with_def user_hi_def
  user_with_def assistant_with_def continue_args_def

text \<open>A transcript in which an assistant turn with an empty entry for the callee stands
  between two assistant turns with a non-empty one, what the code sends to the callee
  "calc" for it, and a transcript in which user and assistant turns alternate.\<close>

definition adjacent :: "message list" where
  "adjacent =
     [user_hi,
      assistant_with (JObj [(''calc'', JObj [(''x'', JNum 1)])]),
      assistant_with (JObj [(''calc'', JObj [])]),
      assistant_with (JObj [(''calc'', JObj [(''y'', JNum 2)])])]"

definition adjacent_out :: "message list" where
  "adjacent_out =
     [user_hi,
      assistant_with (JObj [(''x'', JNum 1)]),
      assistant_with (JObj [(''calc'', JObj [])]),
      assistant_with (JObj [(''y'', JNum 2)]),
      \<lparr>role = User, content = JStr ''continue'',
       custom_content =
         Some \<lparr>custom_content.state = JObj [(''calc'', JObj [(''y'', JNum 2)])],
               attachments = None\<rparr>,
       tool_call_id = None\<rparr>]"

definition alternating :: "message list" where
  "alternating =
     [user_hi,
      assistant_with (JObj [(''calc'', JObj [])]),
      user_with [JStr ''report.pdf''],
      assistant_with (JObj [(''calc'', JObj [(''x'', JNum 1)])])]"

text \<open>An instance of the constructor for the concrete runs: it fills in a default media
  type, and it refuses a dict that has both data and a URL.\<close>

fun example_constructor :: attachment_constructor where
  "example_constructor (JObj kvs) =
     (if map_of kvs ''data'' \<noteq> None \<and> map_of kvs ''url'' \<noteq> None then Inl ValidationError
      else if map_of kvs ''type'' = None
           then Inr (JObj ((''type'', JStr ''text/markdown'') # kvs))
      else Inr (JObj kvs))"
| "example_constructor v = Inl TypeError"

definition report_file :: attachment where
  "report_file = JObj [(''title'', JStr ''report''), (''url'', JStr ''files/report.pdf'')]"

definition report_file_built :: attachment where
  "report_file_built =
     JObj [(''type'', JStr ''text/markdown''), (''title'', JStr ''report''),
           (''url'', JStr ''files/report.pdf'')]"

text \<open>Chunks and stage deltas. The first stream is the scenario of the spec ("He", "llo",
  a stage 0 named "Step" and then completed), followed by a stage 1 that is never
  completed, two states and an attachment. The second delivers the deltas of stage 0
  over several chunks, with several deltas in one chunk and the deltas of a stage 1 in
  between.\<close>

definition content_chunk :: "string \<Rightarrow> chunk" where
  "content_chunk s =
     \<lparr>choices = Some [\<lparr>delta = Some \<lparr>delta.content = Some s, custom_content = None\<rparr>\<rparr>]\<rparr>"

definition custom_chunk :: "delta_custom_content \<Rightarrow> chunk" where
  "custom_chunk cc =
     \<lparr>choices = Some [\<lparr>delta = Some \<lparr>delta.content = None, custom_content = Some cc\<rparr>\<rparr>]\<rparr>"

definition stage_chunk :: "stage_delta list \<Rightarrow> chunk" where
  "stage_chunk ds =
     custom_chunk \<lparr>delta_custom_content.attachments = None, state = JNull, stages = Some ds\<rparr>"

definition state_chunk :: "json \<Rightarrow> chunk" where
  "state_chunk st =
     custom_chunk \<lparr>delta_custom_content.attachments = None, state = st, stages = None\<rparr>"

definition named :: "int \<Rightarrow> string \<Rightarrow> stage_delta" where
  "named idx nm =
     \<lparr>index = idx, name = Some nm, content = None, attachments = None, status = None\<rparr>"

definition fragment :: "int \<Rightarrow> string \<Rightarrow> stage_delta" where
  "fragment idx txt =
     \<lparr>index = idx, name = None, content = Some txt, attachments = None, status = None\<rparr>"

definition completed :: "int \<Rightarrow> stage_delta" where
  "completed idx =
     \<lparr>index = idx, name = None, content = None, attachments = None,
      status = Some ''completed''\<rparr>"

definition hello_stream :: "chunk list" where
  "hello_stream =
     [content_chunk ''He'', content_chunk ''llo'',
      stage_chunk [named 0 ''Step''], stage_chunk [completed 0],
      stage_chunk [named 1 ''Search''],
      state_chunk (JObj [(''a'', JNum 1)]),
      custom_chunk \<lparr>delta_custom_content.attachments = Some [report_file],
                    state = JObj [(''b'', JNum 2)], stages = None\<rparr>]"

fun prompt_text :: "json \<Rightarrow> string" where
  "prompt_text (JStr s) = s"
| "prompt_text v = []"

definition done_stage :: stage where
  "done_stage = \<lparr>stage.name = ''Step'', content = ''ab'', attachments = [], closed = True\<rparr>"

definition both :: "int \<Rightarrow> string \<Rightarrow> string \<Rightarrow> stage_delta" where
  "both idx nm txt =
     \<lparr>index = idx, name = Some nm, content = Some txt, attachments = None, status = None\<rparr>"

definition attached :: "int \<Rightarrow> attachment list \<Rightarrow> stage_delta" where
  "attached idx atts =
     \<lparr>index = idx, name = None, content = None, attachments = Some atts, status = None\<rparr>"

definition mixed_stream :: "chunk list" where
  "mixed_stream =
     [stage_chunk [named 0 ''Step'', fragment 0 ''a''],
      stage_chunk [named 1 ''Other''],
      content_chunk ''x'',
      stage_chunk [both 0 '' one'' ''dropped'', fragment 1 ''z'', fragment 0 ''b''],
      stage_chunk [attached 0 [report_file]],
      stage_chunk [completed 0, completed 0]]"

lemmas stream_defs = content_chunk_def custom_chunk_def stage_chunk_def state_chunk_def
  named_def fragment_def completed_def both_def attached_def hello_stream_def
  mixed_stream_def report_file_def report_file_built_def

lemmas run_defs = execute_def prepare_messages_def json_loads_def history_step_def
  list_item_def start_reconstruction_def tool_message_def consume_chunk_def
  mirror_content_def collect_custom_content_def apply_stage_delta_def append_name_def
  append_content_def add_attachment_def open_stage_def close_stage_safely_def
  close_stages_def some_nonempty_def or_empty_def Let_def

lemmas part_defs = chunk_content_def chunk_custom_content_def chunk_attachments_def
  chunk_state_def chunk_stage_deltas_def first_delta_def accumulated_state_def
  name_part_def content_part_def attachments_part_def appends_def closes_def
  stage_deltas_for_def extended_def

section \<open>Python indexing\<close>

lemma list_item_last:
  "list_item xs (- 1) = (if xs = [] then Inl IndexError else Inr (last xs))"
  by (cases xs rule: rev_cases) (simp_all add: list_item_def nth_append)

lemma list_item_nth: "i < length xs \<Longrightarrow> list_item xs (int i) = Inr (xs ! i)"
  by (simp add: list_item_def)

lemma list_item_prev:
  "0 < i \<Longrightarrow> i < length xs \<Longrightarrow> list_item xs (int i - 1) = Inr (xs ! (i - 1))"
  by (simp add: list_item_def nat_diff_distrib')

section \<open>Properties of the history propagation\<close>

lemma history_step_thread:
  assumes "idx < length msgs" and "state_is_mapping (msgs ! idx)"
    and "own_state nm (msgs ! idx) \<noteq> None \<longrightarrow> 0 < idx"
  shows "history_step nm msgs idx =
           Inr (case own_state nm (msgs ! idx) of
                  None \<Rightarrow> []
                | Some sub \<Rightarrow> [msgs ! (idx - 1), narrowed sub (msgs ! idx)])"
  using assms
  by (auto simp: history_step_def list_item_nth list_item_prev own_state_def
      state_is_mapping_def narrowed_def split: option.splits json.splits)

lemma collect_history_thread:
  assumes "\<forall>idx\<in>set idxs. idx < length msgs \<and> state_is_mapping (msgs ! idx) \<and>
             (own_state nm (msgs ! idx) \<noteq> None \<longrightarrow> 0 < idx)"
  shows "collect_history nm msgs idxs out =
           Inr (out @ concat (map (\<lambda>i. case own_state nm (msgs ! i) of
                         None \<Rightarrow> []
                       | Some sub \<Rightarrow> [msgs ! (i - 1), narrowed sub (msgs ! i)]) idxs))"
  using assms
proof (induction idxs arbitrary: out)
  case Nil
  then show ?case by simp
next
  case (Cons idx idxs)
  have "history_step nm msgs idx =
           Inr (case own_state nm (msgs ! idx) of
                  None \<Rightarrow> []
                | Some sub \<Rightarrow> [msgs ! (idx - 1), narrowed sub (msgs ! idx)])"
    using Cons.prems by (intro history_step_thread) auto
  moreover have "\<forall>idx\<in>set idxs. idx < length msgs \<and> state_is_mapping (msgs ! idx) \<and>
             (own_state nm (msgs ! idx) \<noteq> None \<longrightarrow> 0 < idx)"
    using Cons.prems by simp
  ultimately show ?case
    using Cons.IH by simp
qed

lemma narrowed_state:
  "own_state nm m = Some sub \<Longrightarrow>
     \<exists>cc. message.custom_content (narrowed sub m) = Some cc \<and> custom_content.state cc = sub"
  by (auto simp: own_state_def narrowed_def split: if_splits option.splits)

text \<open>
  C1 (history isolation), as amended. The claim as written fails on the code: the
  scan tests the truthiness of the callee's entry, not the presence of its key, and it
  emits the preceding turn unmodified whatever its role. What holds: for a transcript
  whose states are mappings and in which every assistant turn holding a non-empty
  sub-state for the callee has a preceding turn that is not an assistant turn, with a truthy
  \<^verbatim>\<open>propagate_history\<close> the outbound list is exactly, in transcript order and for each
  such assistant turn, the preceding turn unmodified followed by a copy of the assistant
  turn whose state is only the callee's sub-state, and then the new user turn; every
  assistant turn of that history carries the callee's own sub-state and nothing else.
\<close>

theorem history_isolation:
  assumes "arguments (tool_call p) = Some (JObj args)"
    and "map_of args ''prompt'' = Some prompt"
    and "map_of args ''propagate_history'' = Some ph" and "truthy ph"
    and "tool_call_params.messages p \<noteq> []"
    and "\<forall>m\<in>set (tool_call_params.messages p). state_is_mapping m"
    and "\<forall>i<length (tool_call_params.messages p).
           own_state (base_agent_tool.name self) (tool_call_params.messages p ! i) \<noteq> None \<longrightarrow>
             0 < i \<and> message.role (tool_call_params.messages p ! (i - 1)) \<noteq> Assistant"
  shows "prepare_messages self p =
           Inr (callee_thread (base_agent_tool.name self) (tool_call_params.messages p)
                @ [\<lparr>role = User, content = prompt,
                     custom_content = message.custom_content (last (tool_call_params.messages p)),
                     tool_call_id = None\<rparr>])
         \<and> (\<forall>m\<in>set (callee_thread (base_agent_tool.name self) (tool_call_params.messages p)).
               message.role m = Assistant \<longrightarrow>
                 (\<exists>cc. message.custom_content m = Some cc \<and>
                    (\<exists>orig\<in>set (tool_call_params.messages p).
                       own_state (base_agent_tool.name self) orig
                         = Some (custom_content.state cc))))"
proof -
  let ?nm = "base_agent_tool.name self"
  let ?msgs = "tool_call_params.messages p"
  let ?pair = "\<lambda>i. case own_state ?nm (?msgs ! i) of
                        None \<Rightarrow> []
                      | Some sub \<Rightarrow> [?msgs ! (i - 1), narrowed sub (?msgs ! i)]"
  have "collect_history ?nm ?msgs [0..<length ?msgs] [] = Inr ([] @ callee_thread ?nm ?msgs)"
    unfolding callee_thread_def
    using assms(6,7) by (intro collect_history_thread) auto
  then have first: "prepare_messages self p =
           Inr (callee_thread ?nm ?msgs
                @ [\<lparr>role = User, content = prompt,
                     custom_content = message.custom_content (last ?msgs),
                     tool_call_id = None\<rparr>])"
    using assms(1-5) by (simp add: prepare_messages_def json_loads_def list_item_last)
  have second: "\<exists>cc. message.custom_content m = Some cc \<and>
                    (\<exists>orig\<in>set ?msgs. own_state ?nm orig = Some (custom_content.state cc))"
    if m: "m \<in> set (callee_thread ?nm ?msgs)" and r: "message.role m = Assistant" for m
  proof -
    from m have "m \<in> (\<Union>i\<in>{0..<length ?msgs}. set (?pair i))"
      by (simp add: callee_thread_def)
    then obtain i where "i \<in> {0..<length ?msgs}" and mi: "m \<in> set (?pair i)"
      by (rule UN_E)
    then have i: "i < length ?msgs" by simp
    from mi obtain sub where sub: "own_state ?nm (?msgs ! i) = Some sub"
      and mem: "m = ?msgs ! (i - 1) \<or> m = narrowed sub (?msgs ! i)"
      by (cases "own_state ?nm (?msgs ! i)") auto
    from assms(7) i sub have "message.role (?msgs ! (i - 1)) \<noteq> Assistant" by auto
    with r mem have "m = narrowed sub (?msgs ! i)" by auto
    moreover from narrowed_state[OF sub] obtain cc
      where "message.custom_content (narrowed sub (?msgs ! i)) = Some cc"
        and "custom_content.state cc = sub" by blast
    moreover from i have "?msgs ! i \<in> set ?msgs" by simp
    ultimately show ?thesis using sub by blast
  qed
  from first second show ?thesis by blast
qed

text \<open>The scenario of the spec: the transcript user "hi", assistant with state
  \<^verbatim>\<open>{"calc": {"x": 1}}\<close>, sent to the callee "calc" with the prompt "continue".\<close>

theorem history_isolation_witness:
  "prepare_messages calc_tool
     (call_with continue_args
        [user_hi, assistant_with (JObj [(''calc'', JObj [(''x'', JNum 1)])])])
   = Inr [user_hi,
          assistant_with (JObj [(''x'', JNum 1)]),
          \<lparr>role = User, content = JStr ''continue'',
           custom_content =
             Some \<lparr>custom_content.state = JObj [(''calc'', JObj [(''x'', JNum 1)])],
                   attachments = None\<rparr>,
           tool_call_id = None\<rparr>]"
proof -
  let ?msgs = "[user_hi, assistant_with (JObj [(''calc'', JObj [(''x'', JNum 1)])])]"
  let ?p = "call_with continue_args ?msgs"
  have h1: "arguments (tool_call ?p) = Some (JObj continue_args)"
    by (simp add: call_with_def)
  have h2: "map_of continue_args ''prompt'' = Some (JStr ''continue'')"
    by (simp add: continue_args_def)
  have h3: "map_of continue_args ''propagate_history'' = Some (JBool True)"
    by (simp add: continue_args_def)
  have h4: "truthy (JBool True)" by simp
  have h5: "tool_call_params.messages ?p \<noteq> []" by (simp add: call_with_def)
  have h6: "\<forall>m\<in>set (tool_call_params.messages ?p). state_is_mapping m"
    by (simp add: input_defs state_is_mapping_def)
  have h7: "\<forall>i<length (tool_call_params.messages ?p).
           own_state (base_agent_tool.name calc_tool) (tool_call_params.messages ?p ! i) \<noteq> None \<longrightarrow>
             0 < i \<and> message.role (tool_call_params.messages ?p ! (i - 1)) \<noteq> Assistant"
    by (simp add: input_defs own_state_def less_Suc_eq)
  from history_isolation [OF h1 h2 h3 h4 h5 h6 h7]
  show ?thesis
    by (simp add: input_defs callee_thread_def own_state_def narrowed_def)
qed

text \<open>C1 as written is false on the code. Built for the callee A from the interleaved
  transcript, the outbound list opens with the second turn unmodified, an assistant turn
  whose state is keyed by B; and the last assistant turn, whose state has an entry keyed
  by A (the empty mapping), is not emitted.\<close>

theorem history_isolation_counterexample:
  "prepare_messages a_tool (call_with continue_args interleaved) = Inr interleaved_out
   \<and> keyed_by ''B'' (interleaved_out ! 0)
   \<and> interleaved_out ! 0 = interleaved ! 1
   \<and> keyed_by ''A'' (interleaved ! 4)
   \<and> narrowed (JObj []) (interleaved ! 4) \<notin> set interleaved_out"
  by (simp add: input_defs interleaved_def interleaved_out_def prepare_messages_def
      json_loads_def history_step_def list_item_def keyed_by_def narrowed_def)

text \<open>
  C2 (one-shot mode): for a transcript with at least one turn, when
  \<^verbatim>\<open>propagate_history\<close> is false or absent from the arguments, the outbound list has
  exactly one turn: role user, content the prompt argument, and the custom content of
  the last transcript turn when it has one.
\<close>

theorem one_shot_mode:
  assumes "tool_call_params.messages p \<noteq> []"
    and "arguments (tool_call p) = Some (JObj args)"
    and "map_of args ''prompt'' = Some prompt"
    and "map_of args ''propagate_history'' = None \<or>
         map_of args ''propagate_history'' = Some (JBool False)"
  shows "prepare_messages self p =
           Inr [\<lparr>role = User, content = prompt,
                 custom_content = message.custom_content (last (tool_call_params.messages p)),
                 tool_call_id = None\<rparr>]"
  using assms by (auto simp: prepare_messages_def json_loads_def list_item_last)

theorem one_shot_mode_witness:
  "prepare_messages calc_tool
     (call_with [(''prompt'', JStr ''continue'')]
        [user_hi, assistant_with (JObj [(''calc'', JObj [(''x'', JNum 1)])]),
         user_with [JStr ''report.pdf'']])
   = Inr [\<lparr>role = User, content = JStr ''continue'',
           custom_content =
             Some \<lparr>custom_content.state = JNull, attachments = Some [JStr ''report.pdf'']\<rparr>,
           tool_call_id = None\<rparr>]"
proof -
  let ?args = "[(''prompt'', JStr ''continue'')]"
  let ?p = "call_with ?args
              [user_hi, assistant_with (JObj [(''calc'', JObj [(''x'', JNum 1)])]),
               user_with [JStr ''report.pdf'']]"
  have h1: "tool_call_params.messages ?p \<noteq> []" by (simp add: call_with_def)
  have h2: "arguments (tool_call ?p) = Some (JObj ?args)" by (simp add: call_with_def)
  have h3: "map_of ?args ''prompt'' = Some (JStr ''continue'')" by simp
  have h4: "map_of ?args ''propagate_history'' = None \<or>
            map_of ?args ''propagate_history'' = Some (JBool False)" by simp
  from one_shot_mode [OF h1 h2 h3 h4, of calc_tool]
  show ?thesis by (simp add: input_defs)
qed

text \<open>
  C3 (index-0 guard): the claim asks for a structural error when the first turn of the
  transcript is an assistant turn holding the callee's state. The code has no guard: at
  index 0 the read of the preceding turn is \<^verbatim>\<open>messages[-1]\<close>, which wraps around to the
  last turn. On the one-turn transcript below the call returns normally, and the turn
  emitted as the preceding one is the assistant turn itself, with its whole state.
\<close>

theorem index0_wraps_around:
  "prepare_messages calc_tool
     (call_with continue_args
        [assistant_with (JObj [(''calc'', JObj [(''x'', JNum 1)]), (''other'', JNum 7)])])
   = Inr [assistant_with (JObj [(''calc'', JObj [(''x'', JNum 1)]), (''other'', JNum 7)]),
          assistant_with (JObj [(''x'', JNum 1)]),
          \<lparr>role = User, content = JStr ''continue'',
           custom_content =
             Some \<lparr>custom_content.state =
                     JObj [(''calc'', JObj [(''x'', JNum 1)]), (''other'', JNum 7)],
                   attachments = None\<rparr>,
           tool_call_id = None\<rparr>]"
  by (simp add: input_defs prepare_messages_def json_loads_def history_step_def list_item_def)

lemma history_step_returns:
  assumes "idx < length msgs" and "state_is_mapping (msgs ! idx)"
  shows "\<exists>new. history_step nm msgs idx = Inr new"
proof -
  from assms(1) have "\<exists>prev. list_item msgs (int idx - 1) = Inr prev"
    by (simp add: list_item_def)
  with assms show ?thesis
    by (auto simp: history_step_def list_item_nth state_is_mapping_def
        split: option.splits json.splits)
qed

lemma collect_history_returns:
  assumes "\<forall>idx\<in>set idxs. idx < length msgs \<and> state_is_mapping (msgs ! idx)"
  shows "\<exists>history. collect_history nm msgs idxs out = Inr history"
  using assms
proof (induction idxs arbitrary: out)
  case Nil
  then show ?case by simp
next
  case (Cons idx idxs)
  then obtain new where "history_step nm msgs idx = Inr new"
    using history_step_returns[of idx msgs nm] by auto
  moreover from Cons.prems
  have "\<forall>idx\<in>set idxs. idx < length msgs \<and> state_is_mapping (msgs ! idx)" by simp
  ultimately show ?case using Cons.IH by simp
qed

text \<open>
  C9 (the final propagated user turn): when \<^verbatim>\<open>propagate_history\<close> is true, whenever
  the list is built its last turn is the new user turn, with the prompt as content and
  the custom content (so the attachments) of the current last turn of the transcript,
  never that of an earlier turn; and the list is built, ending with that turn, for every
  non-empty transcript whose states are mappings.
\<close>

theorem final_turn_current:
  assumes "arguments (tool_call p) = Some (JObj args)"
    and "map_of args ''prompt'' = Some prompt"
    and "map_of args ''propagate_history'' = Some ph" and "truthy ph"
  shows "(\<forall>out. prepare_messages self p = Inr out \<longrightarrow>
            tool_call_params.messages p \<noteq> [] \<and> out \<noteq> [] \<and>
            last out = \<lparr>role = User, content = prompt,
                        custom_content =
                          message.custom_content (last (tool_call_params.messages p)),
                        tool_call_id = None\<rparr>)
         \<and> (tool_call_params.messages p \<noteq> [] \<and>
            (\<forall>m\<in>set (tool_call_params.messages p). state_is_mapping m) \<longrightarrow>
            (\<exists>history. prepare_messages self p =
               Inr (history @ [\<lparr>role = User, content = prompt,
                                 custom_content =
                                   message.custom_content (last (tool_call_params.messages p)),
                                 tool_call_id = None\<rparr>])))"
proof (intro conjI allI impI)
  fix out
  assume "prepare_messages self p = Inr out"
  with assms show "tool_call_params.messages p \<noteq> []" and "out \<noteq> []"
    and "last out = \<lparr>role = User, content = prompt,
                        custom_content =
                          message.custom_content (last (tool_call_params.messages p)),
                        tool_call_id = None\<rparr>"
    by (auto simp: prepare_messages_def json_loads_def list_item_last
        split: sum.splits if_splits)
next
  let ?msgs = "tool_call_params.messages p"
  assume wf: "?msgs \<noteq> [] \<and> (\<forall>m\<in>set ?msgs. state_is_mapping m)"
  then have "\<forall>idx\<in>set [0..<length ?msgs]. idx < length ?msgs \<and> state_is_mapping (?msgs ! idx)"
    by simp
  from collect_history_returns[OF this] obtain history
    where "collect_history (base_agent_tool.name self) ?msgs [0..<length ?msgs] [] = Inr history"
    by blast
  with assms wf show "\<exists>history. prepare_messages self p =
               Inr (history @ [\<lparr>role = User, content = prompt,
                                 custom_content = message.custom_content (last ?msgs),
                                 tool_call_id = None\<rparr>])"
    by (simp add: prepare_messages_def json_loads_def list_item_last)
qed

text \<open>
  The propagator run on a transcript whose first turn has an old attachment and whose
  last turn has a new one: the list is built and ends with the new one.
\<close>

theorem final_turn_current_witness:
  "prepare_messages calc_tool
     (call_with continue_args
        [user_with [JStr ''old.pdf''],
         assistant_with (JObj [(''calc'', JObj [(''x'', JNum 1)])]),
         user_with [JStr ''new.pdf'']])
   = Inr [user_with [JStr ''old.pdf''],
          assistant_with (JObj [(''x'', JNum 1)]),
          \<lparr>role = User, content = JStr ''continue'',
           custom_content =
             Some \<lparr>custom_content.state = JNull, attachments = Some [JStr ''new.pdf'']\<rparr>,
           tool_call_id = None\<rparr>]"
proof -
  let ?msgs = "[user_with [JStr ''old.pdf''],
                assistant_with (JObj [(''calc'', JObj [(''x'', JNum 1)])]),
                user_with [JStr ''new.pdf'']]"
  let ?p = "call_with continue_args ?msgs"
  let ?final = "\<lparr>role = User, content = JStr ''continue'',
           custom_content =
             Some \<lparr>custom_content.state = JNull, attachments = Some [JStr ''new.pdf'']\<rparr>,
           tool_call_id = None\<rparr>"
  have h1: "arguments (tool_call ?p) = Some (JObj continue_args)"
    by (simp add: call_with_def)
  have h2: "map_of continue_args ''prompt'' = Some (JStr ''continue'')"
    by (simp add: continue_args_def)
  have h3: "map_of continue_args ''propagate_history'' = Some (JBool True)"
    by (simp add: continue_args_def)
  have h4: "truthy (JBool True)" by simp
  have wf: "tool_call_params.messages ?p \<noteq> [] \<and>
            (\<forall>m\<in>set (tool_call_params.messages ?p). state_is_mapping m)"
    by (simp add: input_defs state_is_mapping_def)
  from final_turn_current [OF h1 h2 h3 h4, of calc_tool] wf
  obtain history where run: "prepare_messages calc_tool ?p = Inr (history @ [?final])"
    by (auto simp: input_defs)
  have "prepare_messages calc_tool ?p =
          Inr [user_with [JStr ''old.pdf''], assistant_with (JObj [(''x'', JNum 1)]), ?final]"
    by (simp add: input_defs prepare_messages_def json_loads_def history_step_def
        list_item_def)
  with run show ?thesis by simp
qed

lemma concat_map_skip:
  "f x = [] \<Longrightarrow> concat (map f xs) = concat (map f (filter (\<lambda>i. i \<noteq> x) xs))"
  by (induction xs) auto

text \<open>
  C10 (falsy sub-state entries are skipped), as amended. The claim as written fails on
  the code: a turn whose entry for the callee is falsy adds nothing of its own, but it is
  still emitted, unmodified, when it is the turn right before an assistant turn with a
  non-empty entry. What holds: for a transcript whose states are mappings and in which
  every assistant turn holding a non-empty sub-state for the callee has a preceding turn
  that is not an assistant turn, an assistant turn whose state maps the callee identity to
  a falsy value is treated as if the entry were absent: the outbound list is exactly what
  the other turns of the transcript add, in transcript order, followed by the new user
  turn.
\<close>

theorem falsy_sub_state_skipped:
  assumes "arguments (tool_call p) = Some (JObj args)"
    and "map_of args ''prompt'' = Some prompt"
    and "map_of args ''propagate_history'' = Some ph" and "truthy ph"
    and "\<forall>m\<in>set (tool_call_params.messages p). state_is_mapping m"
    and "\<forall>i<length (tool_call_params.messages p).
           own_state (base_agent_tool.name self) (tool_call_params.messages p ! i) \<noteq> None \<longrightarrow>
             0 < i \<and> message.role (tool_call_params.messages p ! (i - 1)) \<noteq> Assistant"
    and "idx < length (tool_call_params.messages p)"
    and "message.role (tool_call_params.messages p ! idx) = Assistant"
    and "message.custom_content (tool_call_params.messages p ! idx) = Some cc"
    and "custom_content.state cc = JObj kvs"
    and "map_of kvs (base_agent_tool.name self) = Some v" and "\<not> truthy v"
  shows "prepare_messages self p =
           Inr (concat (map (turn_pair (base_agent_tool.name self) (tool_call_params.messages p))
                          (filter (\<lambda>i. i \<noteq> idx) [0..<length (tool_call_params.messages p)]))
                @ [\<lparr>role = User, content = prompt,
                     custom_content =
                       message.custom_content (last (tool_call_params.messages p)),
                     tool_call_id = None\<rparr>])"
proof -
  let ?nm = "base_agent_tool.name self"
  let ?msgs = "tool_call_params.messages p"
  have "collect_history ?nm ?msgs [0..<length ?msgs] [] =
          Inr ([] @ concat (map (\<lambda>i. case own_state ?nm (?msgs ! i) of
                         None \<Rightarrow> []
                       | Some sub \<Rightarrow> [?msgs ! (i - 1), narrowed sub (?msgs ! i)])
                     [0..<length ?msgs]))"
    using assms(5,6) by (intro collect_history_thread) auto
  then have all: "collect_history ?nm ?msgs [0..<length ?msgs] [] =
          Inr (concat (map (turn_pair ?nm ?msgs) [0..<length ?msgs]))"
    by (simp add: turn_pair_def[abs_def])
  from assms(8-12) have "own_state ?nm (?msgs ! idx) = None"
    by (simp add: own_state_def)
  then have "turn_pair ?nm ?msgs idx = []" by (simp add: turn_pair_def)
  then have "concat (map (turn_pair ?nm ?msgs) [0..<length ?msgs]) =
             concat (map (turn_pair ?nm ?msgs) (filter (\<lambda>i. i \<noteq> idx) [0..<length ?msgs]))"
    by (rule concat_map_skip)
  with all assms(1-4,7) show ?thesis
    by (auto simp: prepare_messages_def json_loads_def list_item_last)
qed

theorem falsy_sub_state_skipped_witness:
  "prepare_messages calc_tool (call_with continue_args alternating)
   = Inr [user_with [JStr ''report.pdf''],
          assistant_with (JObj [(''x'', JNum 1)]),
          \<lparr>role = User, content = JStr ''continue'',
           custom_content =
             Some \<lparr>custom_content.state = JObj [(''calc'', JObj [(''x'', JNum 1)])],
                   attachments = None\<rparr>,
           tool_call_id = None\<rparr>]"
proof -
  let ?p = "call_with continue_args alternating"
  let ?cc = "\<lparr>custom_content.state = JObj [(''calc'', JObj [])], attachments = None\<rparr>"
  have h1: "arguments (tool_call ?p) = Some (JObj continue_args)"
    by (simp add: call_with_def)
  have h2: "map_of continue_args ''prompt'' = Some (JStr ''continue'')"
    by (simp add: continue_args_def)
  have h3: "map_of continue_args ''propagate_history'' = Some (JBool True)"
    by (simp add: continue_args_def)
  have h4: "truthy (JBool True)" by simp
  have h5: "\<forall>m\<in>set (tool_call_params.messages ?p). state_is_mapping m"
    by (simp add: input_defs alternating_def state_is_mapping_def)
  have h6: "\<forall>i<length (tool_call_params.messages ?p).
           own_state (base_agent_tool.name calc_tool) (tool_call_params.messages ?p ! i) \<noteq> None \<longrightarrow>
             0 < i \<and> message.role (tool_call_params.messages ?p ! (i - 1)) \<noteq> Assistant"
    by (simp add: input_defs alternating_def own_state_def less_Suc_eq)
  have h7: "1 < length (tool_call_params.messages ?p)"
    by (simp add: call_with_def alternating_def)
  have h8: "message.role (tool_call_params.messages ?p ! 1) = Assistant"
    by (simp add: input_defs alternating_def)
  have h9: "message.custom_content (tool_call_params.messages ?p ! 1) = Some ?cc"
    by (simp add: input_defs alternating_def)
  have h10: "custom_content.state ?cc = JObj [(''calc'', JObj [])]" by simp
  have h11: "map_of [(''calc'', JObj [])] (base_agent_tool.name calc_tool) = Some (JObj [])"
    by (simp add: calc_tool_def)
  have h12: "\<not> truthy (JObj [])" by simp
  from falsy_sub_state_skipped [OF h1 h2 h3 h4 h5 h6 h7 h8 h9 h10 h11 h12]
  show ?thesis
    by (simp add: input_defs alternating_def turn_pair_def own_state_def narrowed_def
        upt_rec)
qed

text \<open>
  C10 as written is false on the code. In the transcript below the third turn is an
  assistant turn whose entry for "calc" is the empty mapping, so it holds no sub-state
  of its own. The outbound list built for "calc" nevertheless holds that very turn,
  unmodified, emitted as the turn that precedes the fourth one; and it holds the turn
  before it, as the narrowed copy that this turn's own entry earns it.
\<close>

theorem falsy_sub_state_skipped_counterexample:
  "prepare_messages calc_tool (call_with continue_args adjacent) = Inr adjacent_out
   \<and> keyed_by ''calc'' (adjacent ! 2)
   \<and> own_state ''calc'' (adjacent ! 2) = None
   \<and> adjacent_out ! 2 = adjacent ! 2
   \<and> adjacent_out ! 1 = narrowed (JObj [(''x'', JNum 1)]) (adjacent ! 1)"
  by (simp add: input_defs adjacent_def adjacent_out_def prepare_messages_def
      json_loads_def history_step_def list_item_def keyed_by_def own_state_def
      narrowed_def)

section \<open>Properties of the stream reconstruction\<close>

subsection \<open>Stage deltas\<close>

lemma add_attachments_result:
  assumes "add_attachments mk s as = Inr s'"
  shows "\<exists>atts. map mk as = map Inr atts \<and>
           s' = s\<lparr>stage.attachments := stage.attachments s @ atts\<rparr> \<and>
           (as \<noteq> [] \<longrightarrow> \<not> closed s)"
  using assms
proof (induction as arbitrary: s)
  case Nil
  then show ?case by simp
next
  case (Cons a as)
  then obtain a' s1 where a: "mk a = Inr a'" and one: "add_attachment s a' = Inr s1"
    and rest: "add_attachments mk s1 as = Inr s'"
    by (auto split: sum.splits)
  from one have s1: "s1 = s\<lparr>stage.attachments := stage.attachments s @ [a']\<rparr>"
    and "\<not> closed s"
    by (auto simp: add_attachment_def split: if_splits)
  from Cons.IH[OF rest] obtain atts where "map mk as = map Inr atts"
    and "s' = s1\<lparr>stage.attachments := stage.attachments s1 @ atts\<rparr>"
    by blast
  with a s1 \<open>\<not> closed s\<close>
  have "map mk (a # as) = map Inr (a' # atts) \<and>
        s' = s\<lparr>stage.attachments := stage.attachments s @ (a' # atts)\<rparr> \<and>
        (a # as \<noteq> [] \<longrightarrow> \<not> closed s)"
    by simp
  then show ?case by blast
qed

lemma extended_nothing: "extended s [] [] = s"
  by (cases s) (simp add: extended_def)

lemma extended_extended:
  "extended (extended s xs as) ys bs = extended s (xs @ ys) (as @ bs)"
  by (simp add: extended_def)

lemma apply_stage_delta_unseen:
  "m (index d) = None \<Longrightarrow>
     apply_stage_delta mk m d = Inr (m(index d \<mapsto> open_stage (stage_delta.name d)))"
  by (simp add: apply_stage_delta_def)

lemma apply_stage_delta_seen:
  assumes "apply_stage_delta mk m d = Inr m'" and "m (index d) = Some s"
  shows "\<exists>atts. map mk (attachments_part d) = map Inr atts \<and>
           m' = m(index d \<mapsto> extended s [d] atts)"
proof -
  have same: "m(index d \<mapsto> s) = m" using assms(2) by (rule map_upd_triv)
  consider (nm) "some_nonempty (stage_delta.name d)"
    | (ct) "\<not> some_nonempty (stage_delta.name d)" "some_nonempty (stage_delta.content d)"
    | (at) "\<not> some_nonempty (stage_delta.name d)" "\<not> some_nonempty (stage_delta.content d)"
        "some_nonempty (stage_delta.attachments d)"
    | (cl) "\<not> appends d" "status d = Some ''completed''"
    | (no) "\<not> appends d" "status d \<noteq> Some ''completed''"
    by (auto simp: appends_def)
  then show ?thesis
  proof cases
    case nm
    with assms have "\<not> closed s"
      and "m' = m(index d \<mapsto> s\<lparr>stage.name := stage.name s @ or_empty (stage_delta.name d)\<rparr>)"
      by (auto simp: apply_stage_delta_def append_name_def split: if_splits)
    moreover from nm \<open>\<not> closed s\<close>
    have "s\<lparr>stage.name := stage.name s @ or_empty (stage_delta.name d)\<rparr> = extended s [d] []"
      by (cases s)
        (simp add: extended_def name_part_def content_part_def closes_def appends_def)
    moreover from nm have "attachments_part d = []" by (simp add: attachments_part_def)
    ultimately show ?thesis by simp
  next
    case ct
    with assms have "\<not> closed s"
      and "m' = m(index d \<mapsto>
                    s\<lparr>stage.content := stage.content s @ or_empty (stage_delta.content d)\<rparr>)"
      by (auto simp: apply_stage_delta_def append_content_def split: if_splits)
    moreover from ct \<open>\<not> closed s\<close>
    have "s\<lparr>stage.content := stage.content s @ or_empty (stage_delta.content d)\<rparr>
            = extended s [d] []"
      by (cases s)
        (simp add: extended_def name_part_def content_part_def closes_def appends_def)
    moreover from ct have "attachments_part d = []" by (simp add: attachments_part_def)
    ultimately show ?thesis by simp
  next
    case at
    with assms obtain s1
      where run: "add_attachments mk s (or_empty (stage_delta.attachments d)) = Inr s1"
        and m': "m' = m(index d \<mapsto> s1)"
      by (auto simp: apply_stage_delta_def split: sum.splits)
    from at have part: "attachments_part d = or_empty (stage_delta.attachments d)"
      and ne: "or_empty (stage_delta.attachments d) \<noteq> []"
      by (auto simp: attachments_part_def some_nonempty_def or_empty_def split: option.splits)
    from add_attachments_result[OF run] ne obtain atts
      where built: "map mk (or_empty (stage_delta.attachments d)) = map Inr atts"
        and s1: "s1 = s\<lparr>stage.attachments := stage.attachments s @ atts\<rparr>"
        and "\<not> closed s"
      by blast
    from at \<open>\<not> closed s\<close> have "s\<lparr>stage.attachments := stage.attachments s @ atts\<rparr>
        = extended s [d] atts"
      by (cases s)
        (simp add: extended_def name_part_def content_part_def closes_def appends_def)
    with built s1 m' part show ?thesis by auto
  next
    case cl
    with assms have m': "m' = m(index d \<mapsto> close_stage_safely s)"
      by (simp add: apply_stage_delta_def appends_def)
    from cl have "close_stage_safely s = extended s [d] []"
      by (cases s)
        (simp add: close_stage_safely_def extended_def name_part_def content_part_def
          closes_def appends_def)
    moreover from cl have "attachments_part d = []"
      by (simp add: attachments_part_def appends_def)
    ultimately show ?thesis using m' by simp
  next
    case no
    with assms have "m' = m" by (simp add: apply_stage_delta_def appends_def)
    moreover from no have "extended s [d] [] = s"
      by (cases s)
        (simp add: extended_def name_part_def content_part_def closes_def appends_def)
    moreover from no have "attachments_part d = []"
      by (simp add: attachments_part_def appends_def)
    ultimately show ?thesis using same by simp
  qed
qed

lemma apply_stage_delta_other:
  assumes "apply_stage_delta mk m d = Inr m'" and "i \<noteq> index d"
  shows "m' i = m i"
proof (cases "m (index d)")
  case None
  with assms apply_stage_delta_unseen[of m d mk] show ?thesis by auto
next
  case (Some s)
  from apply_stage_delta_seen[OF assms(1) Some] assms(2) show ?thesis by auto
qed

lemma apply_stage_deltas_seen:
  assumes "apply_stage_deltas mk m ds = Inr m'" and "m i = Some s"
  shows "\<exists>atts. map mk (concat (map attachments_part (filter (\<lambda>d. index d = i) ds)))
                   = map Inr atts \<and>
           m' i = Some (extended s (filter (\<lambda>d. index d = i) ds) atts)"
  using assms
proof (induction ds arbitrary: m s)
  case Nil
  then show ?case by (simp add: extended_nothing)
next
  case (Cons d ds)
  then obtain m1 where one: "apply_stage_delta mk m d = Inr m1"
    and rest: "apply_stage_deltas mk m1 ds = Inr m'"
    by (auto split: sum.splits)
  show ?case
  proof (cases "index d = i")
    case False
    with apply_stage_delta_other[OF one, of i] Cons.prems(2) have "m1 i = Some s" by simp
    from Cons.IH[OF rest this] False show ?thesis by simp
  next
    case True
    with Cons.prems(2) have "m (index d) = Some s" by simp
    from apply_stage_delta_seen[OF one this] True obtain a1
      where b1: "map mk (attachments_part d) = map Inr a1"
        and m1: "m1 i = Some (extended s [d] a1)"
      by auto
    from Cons.IH[OF rest m1] obtain a2
      where b2: "map mk (concat (map attachments_part (filter (\<lambda>d. index d = i) ds)))
                   = map Inr a2"
        and m': "m' i = Some (extended (extended s [d] a1) (filter (\<lambda>d. index d = i) ds) a2)"
      by blast
    from b1 b2 True
    have "map mk (concat (map attachments_part (filter (\<lambda>d. index d = i) (d # ds))))
            = map Inr (a1 @ a2)"
      by simp
    moreover from m' True
    have "m' i = Some (extended s (filter (\<lambda>d. index d = i) (d # ds)) (a1 @ a2))"
      by (simp add: extended_extended)
    ultimately show ?thesis by blast
  qed
qed

lemma apply_stage_deltas_unseen:
  assumes "apply_stage_deltas mk m ds = Inr m'" and "m i = None"
  shows "case filter (\<lambda>d. index d = i) ds of
           [] \<Rightarrow> m' i = None
         | d0 # rest \<Rightarrow>
             (\<exists>atts. map mk (concat (map attachments_part rest)) = map Inr atts \<and>
                m' i = Some (extended (open_stage (stage_delta.name d0)) rest atts))"
  using assms
proof (induction ds arbitrary: m)
  case Nil
  then show ?case by simp
next
  case (Cons d ds)
  then obtain m1 where one: "apply_stage_delta mk m d = Inr m1"
    and rest: "apply_stage_deltas mk m1 ds = Inr m'"
    by (auto split: sum.splits)
  show ?case
  proof (cases "index d = i")
    case False
    with apply_stage_delta_other[OF one, of i] Cons.prems(2) have "m1 i = None" by simp
    from Cons.IH[OF rest this] False show ?thesis by simp
  next
    case True
    with Cons.prems(2) have "m (index d) = None" by simp
    then have "apply_stage_delta mk m d = Inr (m(index d \<mapsto> open_stage (stage_delta.name d)))"
      by (rule apply_stage_delta_unseen)
    with one True have "m1 i = Some (open_stage (stage_delta.name d))" by auto
    from apply_stage_deltas_seen[OF rest this] True show ?thesis by simp
  qed
qed

lemma apply_stage_deltas_append:
  "apply_stage_deltas mk m (xs @ ys) =
     (case apply_stage_deltas mk m xs of
        Inl e \<Rightarrow> Inl e
      | Inr m1 \<Rightarrow> apply_stage_deltas mk m1 ys)"
  by (induction xs arbitrary: m) (auto split: sum.splits)

lemma apply_stage_delta_closed:
  assumes "m (index d) = Some s" and "closed s" and "\<not> appends d"
  shows "apply_stage_delta mk m d = Inr m"
proof -
  have same: "m(index d \<mapsto> s) = m" using assms(1) by (rule map_upd_triv)
  show ?thesis
    using assms same
    by (simp add: apply_stage_delta_def Let_def close_stage_safely_def appends_def)
qed

lemma apply_stage_delta_dom:
  "apply_stage_delta mk m d = Inr m' \<Longrightarrow> dom m' = insert (index d) (dom m)"
  by (auto simp: apply_stage_delta_def Let_def split: option.splits if_splits sum.splits)

lemma apply_stage_deltas_dom:
  "apply_stage_deltas mk m ds = Inr m' \<Longrightarrow> dom m' = dom m \<union> index ` set ds"
proof (induction ds arbitrary: m)
  case Nil
  then show ?case by simp
next
  case (Cons d ds)
  then obtain m1 where one: "apply_stage_delta mk m d = Inr m1"
    and rest: "apply_stage_deltas mk m1 ds = Inr m'"
    by (auto split: sum.splits)
  from Cons.IH[OF rest] apply_stage_delta_dom[OF one] show ?case by auto
qed

text \<open>
  C6 (idempotent close): a delta whose selected field is the completion signal, received
  for a stage that is already closed, raises no error and leaves the stage handles as
  they are; the closing pass at the end of the stream leaves an already-closed stage as it
  is.
\<close>

theorem idempotent_close:
  assumes "m (index d) = Some s" and "closed s" and "closes d"
  shows "apply_stage_delta mk m d = Inr m \<and> close_stages m (index d) = Some s"
  using assms apply_stage_delta_closed[of m d s mk]
  by (simp add: closes_def close_stages_def close_stage_safely_def)

theorem idempotent_close_witness:
  "apply_stage_delta example_constructor (Map.empty(0 \<mapsto> done_stage)) (completed 0)
     = Inr (Map.empty(0 \<mapsto> done_stage))
   \<and> close_stages (Map.empty(0 \<mapsto> done_stage)) 0 = Some done_stage"
proof -
  have h1: "(Map.empty(0 \<mapsto> done_stage)) (index (completed 0)) = Some done_stage"
    by (simp add: completed_def)
  have h2: "closed done_stage" by (simp add: done_stage_def)
  have h3: "closes (completed 0)"
    by (simp add: completed_def closes_def appends_def some_nonempty_def)
  from idempotent_close [of "Map.empty(0 \<mapsto> done_stage)" "completed 0" done_stage,
      OF h1 h2 h3]
  show ?thesis by (simp add: completed_def)
qed

subsection \<open>Chunks\<close>

lemma mirror_content_result:
  assumes "mirror_content acc dl = Inr acc'"
  shows "reconstruction.content acc' =
           reconstruction.content acc
           @ (case dl of None \<Rightarrow> [] | Some d \<Rightarrow> or_empty (delta.content d))"
    and "reconstruction.custom_content acc' = reconstruction.custom_content acc"
    and "reconstruction.stages_map acc' = reconstruction.stages_map acc"
  using assms
  by (auto simp: mirror_content_def some_nonempty_def or_empty_def
      split: option.splits if_splits sum.splits)

lemma collect_custom_content_dom:
  assumes "collect_custom_content mk acc cc = Inr acc'"
  shows "dom (reconstruction.stages_map acc') =
           dom (reconstruction.stages_map acc) \<union> index ` set (or_empty (stages cc))"
proof (cases "some_nonempty (stages cc)")
  case True
  with assms obtain m
    where "apply_stage_deltas mk (reconstruction.stages_map acc) (or_empty (stages cc)) = Inr m"
      and "reconstruction.stages_map acc' = m"
    by (auto simp: collect_custom_content_def Let_def split: sum.splits if_splits)
  then show ?thesis using apply_stage_deltas_dom by simp
next
  case False
  then have "or_empty (stages cc) = []"
    by (simp add: some_nonempty_def or_empty_def split: option.splits)
  moreover from False assms have "reconstruction.stages_map acc' = reconstruction.stages_map acc"
    by (auto simp: collect_custom_content_def Let_def split: if_splits)
  ultimately show ?thesis by simp
qed

lemma collect_custom_content_result:
  assumes "collect_custom_content mk acc cc = Inr acc'"
  shows "reconstruction.content acc' = reconstruction.content acc"
    and "custom_content.state (reconstruction.custom_content acc') =
           (if truthy (delta_custom_content.state cc) then delta_custom_content.state cc
            else custom_content.state (reconstruction.custom_content acc))"
    and "or_empty (custom_content.attachments (reconstruction.custom_content acc')) =
           or_empty (custom_content.attachments (reconstruction.custom_content acc))
           @ or_empty (delta_custom_content.attachments cc)"
    and "custom_content.attachments (reconstruction.custom_content acc) \<noteq> None \<Longrightarrow>
           custom_content.attachments (reconstruction.custom_content acc') \<noteq> None"
  using assms
  by (auto simp: collect_custom_content_def Let_def some_nonempty_def or_empty_def
      split: option.splits if_splits sum.splits)

lemma consume_chunk_cases:
  assumes "consume_chunk mk acc chnk = Inr acc'"
  obtains (skipped) "first_delta chnk = None" and "acc' = acc"
  | (plain) d mid where "first_delta chnk = Some d" and "delta.custom_content d = None"
      and "mirror_content acc (Some d) = Inr mid" and "acc' = mid"
  | (custom) d mid cc where "first_delta chnk = Some d" and "delta.custom_content d = Some cc"
      and "mirror_content acc (Some d) = Inr mid" and "collect_custom_content mk mid cc = Inr acc'"
  using assms
  by (auto simp: consume_chunk_def first_delta_def
      split: option.splits list.splits sum.splits)

lemma consume_chunk_result:
  assumes "consume_chunk mk acc chnk = Inr acc'"
  shows "reconstruction.content acc' = reconstruction.content acc @ chunk_content chnk"
    and "custom_content.state (reconstruction.custom_content acc') =
           (if truthy (chunk_state chnk) then chunk_state chnk
            else custom_content.state (reconstruction.custom_content acc))"
    and "or_empty (custom_content.attachments (reconstruction.custom_content acc')) =
           or_empty (custom_content.attachments (reconstruction.custom_content acc))
           @ chunk_attachments chnk"
    and "custom_content.attachments (reconstruction.custom_content acc) \<noteq> None \<Longrightarrow>
           custom_content.attachments (reconstruction.custom_content acc') \<noteq> None"
    and "dom (reconstruction.stages_map acc') =
           dom (reconstruction.stages_map acc) \<union> index ` set (chunk_stage_deltas chnk)"
proof -
  note defs = chunk_content_def chunk_custom_content_def chunk_attachments_def
    chunk_state_def chunk_stage_deltas_def
  from assms show "reconstruction.content acc' = reconstruction.content acc @ chunk_content chnk"
  proof (cases rule: consume_chunk_cases)
    case skipped
    then show ?thesis by (simp add: defs)
  next
    case (plain d mid)
    with mirror_content_result(1)[OF plain(3)] show ?thesis by (simp add: defs)
  next
    case (custom d mid cc)
    with mirror_content_result(1)[OF custom(3)] collect_custom_content_result(1)[OF custom(4)]
    show ?thesis by (simp add: defs)
  qed
  from assms show "custom_content.state (reconstruction.custom_content acc') =
           (if truthy (chunk_state chnk) then chunk_state chnk
            else custom_content.state (reconstruction.custom_content acc))"
  proof (cases rule: consume_chunk_cases)
    case skipped
    then show ?thesis by (simp add: defs)
  next
    case (plain d mid)
    with mirror_content_result(2)[OF plain(3)] show ?thesis by (simp add: defs)
  next
    case (custom d mid cc)
    with mirror_content_result(2)[OF custom(3)] collect_custom_content_result(2)[OF custom(4)]
    show ?thesis by (simp add: defs)
  qed
  from assms show "or_empty (custom_content.attachments (reconstruction.custom_content acc')) =
           or_empty (custom_content.attachments (reconstruction.custom_content acc))
           @ chunk_attachments chnk"
  proof (cases rule: consume_chunk_cases)
    case skipped
    then show ?thesis by (simp add: defs)
  next
    case (plain d mid)
    with mirror_content_result(2)[OF plain(3)] show ?thesis by (simp add: defs)
  next
    case (custom d mid cc)
    with mirror_content_result(2)[OF custom(3)] collect_custom_content_result(3)[OF custom(4)]
    show ?thesis by (simp add: defs)
  qed
  from assms show "custom_content.attachments (reconstruction.custom_content acc') \<noteq> None"
    if "custom_content.attachments (reconstruction.custom_content acc) \<noteq> None"
  proof (cases rule: consume_chunk_cases)
    case skipped
    with that show ?thesis by simp
  next
    case (plain d mid)
    with that mirror_content_result(2)[OF plain(3)] show ?thesis by simp
  next
    case (custom d mid cc)
    with that mirror_content_result(2)[OF custom(3)]
      collect_custom_content_result(4)[OF custom(4)]
    show ?thesis by simp
  qed
  from assms show "dom (reconstruction.stages_map acc') =
           dom (reconstruction.stages_map acc) \<union> index ` set (chunk_stage_deltas chnk)"
  proof (cases rule: consume_chunk_cases)
    case skipped
    then show ?thesis by (simp add: defs)
  next
    case (plain d mid)
    with mirror_content_result(3)[OF plain(3)] show ?thesis by (simp add: defs)
  next
    case (custom d mid cc)
    with mirror_content_result(3)[OF custom(3)] collect_custom_content_dom[OF custom(4)]
    show ?thesis by (simp add: defs)
  qed
qed

lemma consume_chunks_result:
  assumes "consume_chunks mk acc stream = Inr acc'"
  shows "\<exists>chnks. stream = map Inr chnks \<and>
           reconstruction.content acc' =
             reconstruction.content acc @ concat (map chunk_content chnks) \<and>
           custom_content.state (reconstruction.custom_content acc') =
             accumulated_state (custom_content.state (reconstruction.custom_content acc)) chnks \<and>
           or_empty (custom_content.attachments (reconstruction.custom_content acc')) =
             or_empty (custom_content.attachments (reconstruction.custom_content acc))
             @ concat (map chunk_attachments chnks) \<and>
           (custom_content.attachments (reconstruction.custom_content acc) \<noteq> None \<longrightarrow>
              custom_content.attachments (reconstruction.custom_content acc') \<noteq> None) \<and>
           dom (reconstruction.stages_map acc') =
             dom (reconstruction.stages_map acc)
             \<union> index ` set (concat (map chunk_stage_deltas chnks))"
  using assms
proof (induction stream arbitrary: acc)
  case Nil
  then show ?case by (simp add: accumulated_state_def)
next
  case (Cons item stream)
  then obtain chnk mid where item: "item = Inr chnk"
    and one: "consume_chunk mk acc chnk = Inr mid"
    and rest: "consume_chunks mk mid stream = Inr acc'"
    by (cases item) (auto split: sum.splits)
  from Cons.IH[OF rest] obtain chnks where tl: "stream = map Inr chnks"
    and c: "reconstruction.content acc' =
             reconstruction.content mid @ concat (map chunk_content chnks)"
    and st: "custom_content.state (reconstruction.custom_content acc') =
             accumulated_state (custom_content.state (reconstruction.custom_content mid)) chnks"
    and at: "or_empty (custom_content.attachments (reconstruction.custom_content acc')) =
             or_empty (custom_content.attachments (reconstruction.custom_content mid))
             @ concat (map chunk_attachments chnks)"
    and sm: "custom_content.attachments (reconstruction.custom_content mid) \<noteq> None \<longrightarrow>
              custom_content.attachments (reconstruction.custom_content acc') \<noteq> None"
    and dm: "dom (reconstruction.stages_map acc') =
             dom (reconstruction.stages_map mid)
             \<union> index ` set (concat (map chunk_stage_deltas chnks))"
    by blast
  have "Inr chnk # stream = map Inr (chnk # chnks)" using tl by simp
  moreover have "reconstruction.content acc' =
             reconstruction.content acc @ concat (map chunk_content (chnk # chnks))"
    using c consume_chunk_result(1)[OF one] by simp
  moreover have "custom_content.state (reconstruction.custom_content acc') =
      accumulated_state (custom_content.state (reconstruction.custom_content acc)) (chnk # chnks)"
    using st consume_chunk_result(2)[OF one]
    by (simp add: accumulated_state_def)
  moreover have "or_empty (custom_content.attachments (reconstruction.custom_content acc')) =
             or_empty (custom_content.attachments (reconstruction.custom_content acc))
             @ concat (map chunk_attachments (chnk # chnks))"
    using at consume_chunk_result(3)[OF one] by simp
  moreover have "custom_content.attachments (reconstruction.custom_content acc) \<noteq> None \<longrightarrow>
              custom_content.attachments (reconstruction.custom_content acc') \<noteq> None"
    using sm consume_chunk_result(4)[OF one] by blast
  moreover have "dom (reconstruction.stages_map acc') =
             dom (reconstruction.stages_map acc)
             \<union> index ` set (concat (map chunk_stage_deltas (chnk # chnks)))"
    using dm consume_chunk_result(5)[OF one] by auto
  ultimately show ?case
    unfolding item by - (rule exI[where x = "chnk # chnks"], intro conjI, assumption+)
qed

lemma collect_custom_content_stages:
  assumes "collect_custom_content mk acc cc = Inr acc'"
  shows "apply_stage_deltas mk (reconstruction.stages_map acc) (or_empty (stages cc))
           = Inr (reconstruction.stages_map acc')"
proof (cases "some_nonempty (stages cc)")
  case True
  with assms obtain m
    where "apply_stage_deltas mk (reconstruction.stages_map acc) (or_empty (stages cc)) = Inr m"
      and "reconstruction.stages_map acc' = m"
    by (auto simp: collect_custom_content_def Let_def split: sum.splits if_splits)
  then show ?thesis by simp
next
  case False
  then have "or_empty (stages cc) = []"
    by (simp add: some_nonempty_def or_empty_def split: option.splits)
  moreover from False assms have "reconstruction.stages_map acc' = reconstruction.stages_map acc"
    by (auto simp: collect_custom_content_def Let_def split: if_splits)
  ultimately show ?thesis by simp
qed

lemma consume_chunk_stages:
  assumes "consume_chunk mk acc chnk = Inr acc'"
  shows "apply_stage_deltas mk (reconstruction.stages_map acc) (chunk_stage_deltas chnk)
           = Inr (reconstruction.stages_map acc')"
  using assms
proof (cases rule: consume_chunk_cases)
  case skipped
  then show ?thesis by (simp add: chunk_stage_deltas_def chunk_custom_content_def)
next
  case (plain d mid)
  with mirror_content_result(3)[OF plain(3)] show ?thesis
    by (simp add: chunk_stage_deltas_def chunk_custom_content_def)
next
  case (custom d mid cc)
  with mirror_content_result(3)[OF custom(3)] collect_custom_content_stages[OF custom(4)]
  show ?thesis by (simp add: chunk_stage_deltas_def chunk_custom_content_def)
qed

lemma consume_chunks_stages:
  assumes "consume_chunks mk acc (map Inr chnks) = Inr acc'"
  shows "apply_stage_deltas mk (reconstruction.stages_map acc)
           (concat (map chunk_stage_deltas chnks)) = Inr (reconstruction.stages_map acc')"
  using assms
proof (induction chnks arbitrary: acc)
  case Nil
  then show ?case by simp
next
  case (Cons chnk chnks)
  then obtain mid where one: "consume_chunk mk acc chnk = Inr mid"
    and rest: "consume_chunks mk mid (map Inr chnks) = Inr acc'"
    by (auto split: sum.splits)
  from consume_chunk_stages[OF one] Cons.IH[OF rest] show ?case
    by (simp add: apply_stage_deltas_append)
qed

text \<open>
  C4 (stage-delta priority dispatch), as amended. The claim as written fails on the
  code: the first delta seen for an index only opens the stage, with its name fragment
  or an empty name, and its content, attachments and status are not applied. What holds,
  for every chunk sequence consumed without error and for every index: the deltas
  delivered for that index, in arrival order over all chunks and batches and whatever
  deltas of other indices lie between them, decide its stage. Each delta applied to the
  stage contributes only its highest-priority non-empty field, in the order name,
  content, attachments, completed. For an index already seen, the stage is the one it
  was, with the selected name fragments, content fragments and attachments (as built by
  the constructor, which accepted each of them) appended in arrival order, and closed if
  it was closed or one of the deltas was a completion signal. For an index not yet seen,
  the first delta opens the stage and the same holds of the deltas after the first; with
  no delta, there is no stage.
\<close>

theorem stage_delta_priority:
  assumes "consume_chunks mk acc (map Inr chnks) = Inr acc'"
  shows "case reconstruction.stages_map acc i of
           Some s \<Rightarrow>
             (\<exists>atts. map mk (concat (map attachments_part (stage_deltas_for i chnks)))
                        = map Inr atts \<and>
                reconstruction.stages_map acc' i
                  = Some (extended s (stage_deltas_for i chnks) atts))
         | None \<Rightarrow>
             (case stage_deltas_for i chnks of
                [] \<Rightarrow> reconstruction.stages_map acc' i = None
              | d0 # ds \<Rightarrow>
                  (\<exists>atts. map mk (concat (map attachments_part ds)) = map Inr atts \<and>
                     reconstruction.stages_map acc' i
                       = Some (extended (open_stage (stage_delta.name d0)) ds atts)))"
proof (cases "reconstruction.stages_map acc i")
  case None
  from apply_stage_deltas_unseen[OF consume_chunks_stages[OF assms] None] None
  show ?thesis by (simp add: stage_deltas_for_def)
next
  case (Some s)
  from apply_stage_deltas_seen[OF consume_chunks_stages[OF assms] Some] Some
  show ?thesis by (simp add: stage_deltas_for_def)
qed

text \<open>
  The deltas of stage 0 arrive over four chunks, two of them with several deltas, and
  between the deltas of stage 1. A delta with both a name and a content contributes its
  name only, and the attachment is the one the constructor built.
\<close>

theorem stage_delta_priority_witness:
  "\<exists>acc'. consume_chunks example_constructor (start_reconstruction blank_stage)
             (map Inr mixed_stream) = Inr acc'
     \<and> reconstruction.stages_map acc' 0 =
         Some \<lparr>stage.name = ''Step one'', content = ''ab'',
               attachments = [report_file_built], closed = True\<rparr>
     \<and> reconstruction.stages_map acc' 1 =
         Some \<lparr>stage.name = ''Other'', content = ''z'', attachments = [], closed = False\<rparr>
     \<and> reconstruction.stages_map acc' 2 = None"
proof -
  obtain acc' where run:
    "consume_chunks example_constructor (start_reconstruction blank_stage)
       (map Inr mixed_stream) = Inr acc'"
    by (simp add: stream_defs run_defs blank_stage_def)
  have unseen: "reconstruction.stages_map (start_reconstruction blank_stage) i = None" for i
    by (simp add: start_reconstruction_def)
  have d0: "stage_deltas_for 0 mixed_stream =
              [named 0 ''Step'', fragment 0 ''a'', both 0 '' one'' ''dropped'', fragment 0 ''b'',
               attached 0 [report_file], completed 0, completed 0]"
    by (simp add: stream_defs part_defs or_empty_def)
  have d1: "stage_deltas_for 1 mixed_stream = [named 1 ''Other'', fragment 1 ''z'']"
    by (simp add: stream_defs part_defs or_empty_def)
  have d2: "stage_deltas_for 2 mixed_stream = []"
    by (simp add: stream_defs part_defs or_empty_def)
  from stage_delta_priority [OF run, of 0] unseen d0
  have s0: "reconstruction.stages_map acc' 0 =
         Some \<lparr>stage.name = ''Step one'', content = ''ab'',
               attachments = [report_file_built], closed = True\<rparr>"
    by (auto simp: stream_defs part_defs open_stage_def some_nonempty_def or_empty_def)
  from stage_delta_priority [OF run, of 1] unseen d1
  have s1: "reconstruction.stages_map acc' 1 =
         Some \<lparr>stage.name = ''Other'', content = ''z'', attachments = [], closed = False\<rparr>"
    by (auto simp: stream_defs part_defs open_stage_def some_nonempty_def or_empty_def)
  from stage_delta_priority [OF run, of 2] unseen d2
  have s2: "reconstruction.stages_map acc' 2 = None"
    by simp
  from run s0 s1 s2 show ?thesis by blast
qed

text \<open>
  C4 as written is false on the code: a content fragment that is the first delta seen
  for index 0 opens a stage with empty content, while the concatenation of the selected
  content fields is "He".
\<close>

theorem stage_delta_priority_counterexample:
  "apply_stage_deltas example_constructor Map.empty [fragment 0 ''He'']
   = Inr (Map.empty(0 \<mapsto>
            \<lparr>stage.name = [], content = [], attachments = [], closed = False\<rparr>))
   \<and> concat (map content_part [fragment 0 ''He'']) = ''He''"
  by (simp add: fragment_def apply_stage_delta_def open_stage_def content_part_def
      some_nonempty_def or_empty_def)

lemma accumulated_state_last:
  assumes "truthy (chunk_state chnk)" and "\<forall>c\<in>set later. \<not> truthy (chunk_state c)"
  shows "accumulated_state initial (earlier @ chnk # later) = chunk_state chnk"
proof -
  from assms(2) have "filter truthy (map chunk_state later) = []"
    by (simp add: filter_empty_conv)
  with assms(1) have "filter truthy (map chunk_state (earlier @ chnk # later)) =
          filter truthy (map chunk_state earlier) @ [chunk_state chnk]"
    by simp
  then show ?thesis
    by (simp only: accumulated_state_def) simp
qed

text \<open>
  C7 (state last-write-wins): when a chunk sequence is consumed without error, the
  accumulated state is exactly the state of the last chunk carrying a non-empty state,
  whatever the earlier chunks carried and whatever the state accumulated before.
\<close>

theorem state_last_write_wins:
  assumes "consume_chunks mk acc (map Inr (earlier @ chnk # later)) = Inr acc'"
    and "truthy (chunk_state chnk)"
    and "\<forall>c\<in>set later. \<not> truthy (chunk_state c)"
  shows "custom_content.state (reconstruction.custom_content acc') = chunk_state chnk"
proof -
  from consume_chunks_result[OF assms(1)] obtain chnks
    where "map Inr (earlier @ chnk # later) = (map Inr chnks :: chunk_stream)"
      and st: "custom_content.state (reconstruction.custom_content acc') =
             accumulated_state (custom_content.state (reconstruction.custom_content acc)) chnks"
    by blast
  then have "chnks = earlier @ chnk # later"
    by (metis inj_map_eq_map inj_Inr)
  with st accumulated_state_last[OF assms(2,3)] show ?thesis by simp
qed

theorem state_last_write_wins_witness:
  "\<exists>acc'. consume_chunks example_constructor (start_reconstruction blank_stage)
             (map Inr [state_chunk (JObj [(''a'', JNum 1)]), state_chunk (JObj [(''b'', JNum 2)])])
           = Inr acc'
     \<and> custom_content.state (reconstruction.custom_content acc') = JObj [(''b'', JNum 2)]"
proof -
  let ?a = "state_chunk (JObj [(''a'', JNum 1)])"
  let ?b = "state_chunk (JObj [(''b'', JNum 2)])"
  obtain acc' where h1:
    "consume_chunks example_constructor (start_reconstruction blank_stage) (map Inr ([?a] @ ?b # [])) = Inr acc'"
    by (simp add: stream_defs run_defs)
  have h2: "truthy (chunk_state ?b)" by (simp add: stream_defs part_defs)
  have h3: "\<forall>c\<in>set []. \<not> truthy (chunk_state c)" by simp
  from state_last_write_wins [OF h1 h2 h3] h1
  show ?thesis by (simp add: stream_defs part_defs)
qed

subsection \<open>The result of \<^verbatim>\<open>_execute\<close>\<close>

lemma tool_message_result:
  assumes "tool_message mk p acc = Inr r"
  shows "returned r =
           \<lparr>role = Tool,
            content = JStr (reconstruction.content acc),
            custom_content = Some (reconstruction.custom_content acc),
            tool_call_id = Some (call_id (tool_call p))\<rparr>"
    and "outcome.stages_map r = close_stages (reconstruction.stages_map acc)"
  using assms by (auto simp: tool_message_def split: sum.splits)

lemma execute_result:
  assumes "execute self mk py_str callee p = Inr r"
  obtains req stream caller_stage acc
  where "prepare_messages self p = Inr (request.messages req)"
    and "callee req = Inr stream"
    and "consume_chunks mk (start_reconstruction caller_stage) stream = Inr acc"
    and "tool_message mk p acc = Inr r"
proof -
  from assms obtain msgs forwarded caller_stage stream acc
    where "prepare_messages self p = Inr msgs"
      and "callee \<lparr>base_url = endpoint self,
                   api_key = tool_call_params.api_key p,
                   messages = msgs,
                   deployment_name = base_agent_tool.deployment_name self,
                   configuration = forwarded,
                   conversation_id = tool_call_params.conversation_id p\<rparr> = Inr stream"
      and "consume_chunks mk (start_reconstruction caller_stage) stream = Inr acc"
      and "tool_message mk p acc = Inr r"
    unfolding execute_def
    by (auto split: sum.splits prod.splits if_splits)
  then show ?thesis using that by force
qed

text \<open>
  C8 (tool-result turn shape): when the invocation returns, the chunk stream of the
  callee was consumed whole and the returned turn has role tool, as content the
  concatenation in arrival order of the content deltas, as custom content the accumulated
  state and the accumulated attachments, and as tool call id the id of the originating
  tool call.
\<close>

theorem tool_result_turn:
  assumes "execute self mk py_str callee p = Inr r"
  shows "\<exists>req chnks.
           prepare_messages self p = Inr (request.messages req) \<and>
           callee req = Inr (map Inr chnks) \<and>
           returned r =
             \<lparr>role = Tool,
              content = JStr (concat (map chunk_content chnks)),
              custom_content =
                Some \<lparr>custom_content.state = accumulated_state JNull chnks,
                      attachments = Some (concat (map chunk_attachments chnks))\<rparr>,
              tool_call_id = Some (call_id (tool_call p))\<rparr>"
proof -
  from assms obtain req stream caller_stage acc
    where msgs: "prepare_messages self p = Inr (request.messages req)"
      and call: "callee req = Inr stream"
      and run: "consume_chunks mk (start_reconstruction caller_stage) stream = Inr acc"
      and r: "tool_message mk p acc = Inr r"
    by (rule execute_result)
  from consume_chunks_result[OF run] obtain chnks
    where stream: "stream = map Inr chnks"
      and c: "reconstruction.content acc = concat (map chunk_content chnks)"
      and st: "custom_content.state (reconstruction.custom_content acc) =
                 accumulated_state JNull chnks"
      and at: "or_empty (custom_content.attachments (reconstruction.custom_content acc)) =
                 concat (map chunk_attachments chnks)"
      and some: "custom_content.attachments (reconstruction.custom_content acc) \<noteq> None"
    by (auto simp: start_reconstruction_def or_empty_def)
  from at some have "custom_content.attachments (reconstruction.custom_content acc) =
      Some (concat (map chunk_attachments chnks))"
    by (auto simp: or_empty_def)
  with st have "reconstruction.custom_content acc =
      \<lparr>custom_content.state = accumulated_state JNull chnks,
       attachments = Some (concat (map chunk_attachments chnks))\<rparr>"
    by (cases "reconstruction.custom_content acc") simp
  with c tool_message_result(1)[OF r] have "returned r =
             \<lparr>role = Tool,
              content = JStr (concat (map chunk_content chnks)),
              custom_content =
                Some \<lparr>custom_content.state = accumulated_state JNull chnks,
                      attachments = Some (concat (map chunk_attachments chnks))\<rparr>,
              tool_call_id = Some (call_id (tool_call p))\<rparr>"
    by simp
  with msgs call stream show ?thesis by blast
qed

theorem tool_result_turn_witness:
  "\<exists>r. execute calc_tool example_constructor prompt_text (\<lambda>req. Inr (map Inr hello_stream))
          (call_with continue_args [user_hi]) = Inr r
     \<and> returned r =
         \<lparr>role = Tool, content = JStr ''Hello'',
          custom_content =
            Some \<lparr>custom_content.state = JObj [(''b'', JNum 2)],
                  attachments = Some [report_file]\<rparr>,
          tool_call_id = Some ''call_1''\<rparr>"
proof -
  let ?callee = "\<lambda>req :: request. (Inr (map Inr hello_stream) :: py_error + chunk_stream)"
  let ?p = "call_with continue_args [user_hi]"
  obtain r where h: "execute calc_tool example_constructor prompt_text ?callee ?p = Inr r"
    by (simp add: input_defs stream_defs run_defs)
  from tool_result_turn [OF h] obtain chnks
    where "map Inr chnks = (map Inr hello_stream :: chunk_stream)"
      and ret: "returned r =
             \<lparr>role = Tool,
              content = JStr (concat (map chunk_content chnks)),
              custom_content =
                Some \<lparr>custom_content.state = accumulated_state JNull chnks,
                      attachments = Some (concat (map chunk_attachments chnks))\<rparr>,
              tool_call_id = Some (call_id (tool_call ?p))\<rparr>"
    by auto
  then have "chnks = hello_stream" by (metis inj_map_eq_map inj_Inr)
  with ret have "returned r =
         \<lparr>role = Tool, content = JStr ''Hello'',
          custom_content =
            Some \<lparr>custom_content.state = JObj [(''b'', JNum 2)],
                  attachments = Some [report_file]\<rparr>,
          tool_call_id = Some ''call_1''\<rparr>"
    by (simp add: stream_defs part_defs call_with_def or_empty_def)
  with h show ?thesis by blast
qed

lemma close_stage_safely_closed: "closed (close_stage_safely stg)"
  by (simp add: close_stage_safely_def)

lemma close_stages_closed:
  "close_stages m idx = Some stg \<Longrightarrow> closed stg"
  by (auto simp: close_stages_def close_stage_safely_closed)

lemma close_stages_dom: "dom (close_stages m) = dom m"
  by (auto simp: close_stages_def dom_def)

text \<open>
  C5 (all stages closed on normal completion): when the invocation returns, the stage
  handles are exactly those of the indices that occurred in the stage deltas of the
  stream, and every one of them is closed, with or without a completion signal.
\<close>

theorem all_stages_closed:
  assumes "execute self mk py_str callee p = Inr r"
  shows "\<exists>req chnks.
           callee req = Inr (map Inr chnks) \<and>
           dom (outcome.stages_map r) = index ` set (concat (map chunk_stage_deltas chnks)) \<and>
           (\<forall>idx stg. outcome.stages_map r idx = Some stg \<longrightarrow> closed stg)"
proof -
  from assms obtain req stream caller_stage acc
    where call: "callee req = Inr stream"
      and run: "consume_chunks mk (start_reconstruction caller_stage) stream = Inr acc"
      and r: "tool_message mk p acc = Inr r"
    by (rule execute_result)
  from consume_chunks_result[OF run] obtain chnks
    where stream: "stream = map Inr chnks"
      and dm: "dom (reconstruction.stages_map acc) =
                 index ` set (concat (map chunk_stage_deltas chnks))"
    by (auto simp: start_reconstruction_def)
  from r have m: "outcome.stages_map r = close_stages (reconstruction.stages_map acc)"
    by (rule tool_message_result)
  have "\<forall>idx stg. outcome.stages_map r idx = Some stg \<longrightarrow> closed stg"
    unfolding m using close_stages_closed by blast
  moreover have "dom (outcome.stages_map r) =
      index ` set (concat (map chunk_stage_deltas chnks))"
    unfolding m using dm by (simp add: close_stages_dom)
  ultimately show ?thesis using call stream by blast
qed

theorem all_stages_closed_witness:
  "\<exists>r. execute calc_tool example_constructor prompt_text (\<lambda>req. Inr (map Inr hello_stream))
          (call_with continue_args [user_hi]) = Inr r
     \<and> dom (outcome.stages_map r) = {0, 1}
     \<and> map_option closed (outcome.stages_map r 1) = Some True"
proof -
  let ?callee = "\<lambda>req :: request. (Inr (map Inr hello_stream) :: py_error + chunk_stream)"
  let ?p = "call_with continue_args [user_hi]"
  obtain r where h: "execute calc_tool example_constructor prompt_text ?callee ?p = Inr r"
    by (simp add: input_defs stream_defs run_defs)
  from all_stages_closed [OF h] obtain chnks
    where "map Inr chnks = (map Inr hello_stream :: chunk_stream)"
      and dm: "dom (outcome.stages_map r) = index ` set (concat (map chunk_stage_deltas chnks))"
      and cl: "\<forall>idx stg. outcome.stages_map r idx = Some stg \<longrightarrow> closed stg"
    by auto
  then have "chnks = hello_stream" by (metis inj_map_eq_map inj_Inr)
  with dm have d: "dom (outcome.stages_map r) = {0, 1}"
    by (auto simp: stream_defs part_defs or_empty_def)
  then obtain stg where "outcome.stages_map r 1 = Some stg" by blast
  with cl have "map_option closed (outcome.stages_map r 1) = Some True" by auto
  with h d show ?thesis by blast
qed

end
